theory Spec2Isabelle
  imports Main
begin

section \<open>Settings and errors\<close>

text \<open>
  The module \<open>dataforms/forms.py\<close> reads its constants from \<open>dataforms/settings.py\<close>,
  which is not among the sources at hand. They are therefore parameters of every
  definition below: the reserved delimiter of key mangling, the reserved slug of the
  hidden bindings field and the classification tuples of field-type tags.
\<close>

record settings =
  FIELD_DELIMITER :: string
  HIDDEN_BINDINGS_SLUG :: string
  CHOICE_FIELDS :: "string list"
  MULTI_CHOICE_FIELDS :: "string list"
  SINGLE_NUMBER_FIELDS :: "string list"
  MULTI_NUMBER_FIELDS :: "string list"

text \<open>Every exception the modelled code can raise is a value.\<close>

datatype error =
    IndexError
  | ValueError
  | TypeError
  | KeyError
  | AttributeError
  | AssertionError
  | FieldError
  | DoesNotExist
  | MultipleObjectsReturned
  | SectionDoesNotExist

section \<open>Key mangling\<close>

text \<open>
  Python's \<open>str.split(sep)\<close> for a non-empty separator: the string is scanned from the
  left, every occurrence of the separator ends the current piece and the scan goes on
  behind it. \<open>split_from sep acc s\<close> is the scan with the current piece \<open>acc\<close>.
\<close>

fun split_from :: "string \<Rightarrow> string \<Rightarrow> string \<Rightarrow> string list" where
  "split_from sep acc [] = [acc]"
| "split_from sep acc (c # cs) =
     (if sep \<noteq> [] \<and> take (length sep) (c # cs) = sep
      then acc # split_from sep [] (drop (length sep - 1) cs)
      else split_from sep (acc @ [c]) cs)"

text \<open>An empty separator raises \<open>ValueError\<close>.\<close>

definition split :: "string \<Rightarrow> string \<Rightarrow> error + string list" where
  "split s sep = (if sep = [] then Inl ValueError else Inr (split_from sep [] s))"

text \<open>Python's \<open>sub in s\<close> on strings: \<open>sub\<close> occurs somewhere in \<open>s\<close>.\<close>

fun contains :: "string \<Rightarrow> string \<Rightarrow> bool" where
  "contains sub [] = (sub = [])"
| "contains sub (c # cs) = (take (length sub) (c # cs) = sub \<or> contains sub cs)"

text \<open>\<open>_field_for_form(name, form)\<close>: \<open>"%s%s%s" % (form, FIELD_DELIMITER, name)\<close>.\<close>

definition field_for_form :: "settings \<Rightarrow> string \<Rightarrow> string \<Rightarrow> string" where
  "field_for_form S name form = form @ FIELD_DELIMITER S @ name"

text \<open>
  \<open>_field_for_db(name, packed_return)\<close> returns a string, or a pair in packed mode.
  \<open>names[1]\<close> raises \<open>IndexError\<close> when the key holds no delimiter.
\<close>

datatype unpacked = FieldName string | FormAndField string string

definition field_for_db :: "settings \<Rightarrow> string \<Rightarrow> bool \<Rightarrow> error + unpacked" where
  "field_for_db S name packed_return =
     (case split name (FIELD_DELIMITER S) of
        Inl e \<Rightarrow> Inl e
      | Inr names \<Rightarrow>
          (if packed_return then
             (case names of
                n0 # n1 # _ \<Rightarrow>
                  Inr (FormAndField (drop (if contains ''id_'' n0 then length ''id_'' else 0) n0) n1)
              | _ \<Rightarrow> Inl IndexError)
           else
             (case names of
                _ # n1 # _ \<Rightarrow> Inr (FieldName n1)
              | _ \<Rightarrow> Inl IndexError)))"

section \<open>Bindings\<close>

text \<open>
  A \<open>Binding\<close> row as \<open>get_bindings\<close> reads it: the slug of the child field, the slug of
  the parent field when \<open>parent_field\<close> is set, and for a set \<open>parent_choice\<close> (a
  \<open>FieldChoice\<close> row) the slug of its field and the value of its choice.
\<close>

record binding =
  child :: string
  parent_field :: "string option"
  parent_choice :: "(string \<times> string) option"

datatype binding_tuple = Tuple2 string string | Tuple3 string string string

text \<open>
  The loop of \<open>get_bindings\<close> over the bindings of the form (the query
  \<open>Binding.objects.filter(data_form=form)\<close> is the caller's), with the list \<open>data\<close> built
  so far.
\<close>

fun get_bindings_loop ::
  "settings \<Rightarrow> string \<Rightarrow> binding list \<Rightarrow> binding_tuple list \<Rightarrow> error + binding_tuple list"
where
  "get_bindings_loop S form_slug [] data = Inr data"
| "get_bindings_loop S form_slug (b # bs) data =
     (let child_key = field_for_form S (child b) form_slug in
      case parent_field b of
        Some pf \<Rightarrow>
          get_bindings_loop S form_slug bs
            (data @ [Tuple2 (field_for_form S pf form_slug) child_key])
      | None \<Rightarrow>
          (case parent_choice b of
             Some (cf, cv) \<Rightarrow>
               get_bindings_loop S form_slug bs
                 (data @ [Tuple3 (field_for_form S cf form_slug) cv child_key])
           | None \<Rightarrow> Inl FieldError))"

definition get_bindings :: "settings \<Rightarrow> string \<Rightarrow> binding list \<Rightarrow> error + binding_tuple list" where
  "get_bindings S form_slug bindings = get_bindings_loop S form_slug bindings []"

section \<open>Built forms\<close>

text \<open>
  A cleaned value as \<open>save\<close> tells the shapes apart: a string (\<open>str\<close> or \<open>unicode\<close>), a
  list (of the strings of the selected choices, or of numbers in their textual form), a
  boolean (a single checkbox), or \<open>None\<close>.
\<close>

datatype cleaned = Str string | Items "string list" | Flag bool | NoValue

text \<open>
  A built form, as far as \<open>forms.py\<close> reads and writes it: the class attribute \<open>slug\<close>,
  \<open>meta['slug']\<close>, the attributes \<open>section\<close> (here \<open>form_section\<close>), \<open>submission_slug\<close> and \<open>submission\<close> that
  \<open>create_form\<close> attaches (an attribute that was never set is \<open>None\<close> here, and reading it
  raises \<open>AttributeError\<close>), the keys of \<open>fields\<close> in their order (\<open>field_keys\<close>), and \<open>cleaned_data\<close>, which
  exists only once validation has run. A \<open>Submission\<close> is referred to by its row number.
\<close>

record form =
  slug :: string
  meta_slug :: string
  form_section :: "string option"
  submission_slug :: "string option"
  submission :: "nat option"
  field_keys :: "string list"
  cleaned_data :: "(string \<Rightarrow> cleaned option) option"

text \<open>\<open>_remove_bindings_field(form)\<close>: delete the hidden bindings field if it is there.\<close>

definition remove_bindings_field :: "settings \<Rightarrow> form \<Rightarrow> form" where
  "remove_bindings_field S f =
     (let hidden_bindings_field_slug = field_for_form S (HIDDEN_BINDINGS_SLUG S) (meta_slug f) in
      if hidden_bindings_field_slug \<in> set (field_keys f)
      then f\<lparr>field_keys := removeAll hidden_bindings_field_slug (field_keys f)\<rparr>
      else f)"

text \<open>
  \<open>BaseDataForm.is_valid\<close>. The validation of the framework's \<open>BaseForm\<close> is not part of
  the module: it is the parameter \<open>base_is_valid\<close>, which returns the verdict and the form
  with its errors and cleaned data filled in.
\<close>

definition is_valid :: "(form \<Rightarrow> bool \<times> form) \<Rightarrow> settings \<Rightarrow> form \<Rightarrow> bool \<times> form" where
  "is_valid base_is_valid S f = base_is_valid (remove_bindings_field S f)"

section \<open>Collections\<close>

datatype section_row = Section (section_slug: string)

text \<open>
  A \<open>BaseCollection\<close> object. \<open>form_existence\<close> is the private mask
  \<open>__form_existence\<close>; \<open>section_pos\<close>, \<open>next_section_pos\<close> and \<open>prev_section_pos\<close> are
  \<open>_section\<close>, \<open>_next_section\<close> and \<open>_prev_section\<close>; \<open>coll_section\<close> is the attribute
  \<open>section\<close> of the collection and \<open>coll_slug\<close> its \<open>slug\<close>.
\<close>

record collection =
  title :: string
  description :: string
  coll_slug :: string
  forms :: "form list"
  sections :: "section_row list"
  form_existence :: "bool list"
  section_pos :: nat
  next_section_pos :: "nat option"
  prev_section_pos :: "nat option"
  coll_section :: "section_row option"
  next_section :: "section_row option"
  prev_section :: "section_row option"

text \<open>The argument of \<open>set_section\<close>: nothing, a slug, or a \<open>Section\<close> object.\<close>

datatype section_arg = NoSection | BySlug string | ByObject section_row

text \<open>\<open>list.index(x)\<close>: the first position of \<open>x\<close>, \<open>ValueError\<close> (here \<open>None\<close>) without one.\<close>

fun index_of :: "'a list \<Rightarrow> 'a \<Rightarrow> nat option" where
  "index_of [] x = None"
| "index_of (y # ys) x = (if y = x then Some 0 else map_option Suc (index_of ys x))"

text \<open>
  \<open>BaseCollection.set_section\<close>. The mask is assigned before anything can be raised, so
  an error comes with the collection as the assignments so far have left it.
\<close>

definition set_section :: "collection \<Rightarrow> section_arg \<Rightarrow> (error \<times> collection) + collection" where
  "set_section c arg =
     (let sect = (case arg of
                    NoSection \<Rightarrow> None
                  | BySlug s \<Rightarrow> Some s
                  | ByObject row \<Rightarrow> Some (section_slug row));
          mask = (case sect of
                    None \<Rightarrow> map (\<lambda>form. True) (forms c)
                  | Some s \<Rightarrow> map (\<lambda>form. form_section form = Some s) (forms c));
          c1 = c\<lparr>form_existence := mask\<rparr>
      in if True \<notin> set mask then Inl (SectionDoesNotExist, c1)
         else
           (case (case sect of
                    None \<Rightarrow> Some 0
                  | Some s \<Rightarrow> if s = [] then Some 0
                              else index_of (map section_slug (sections c)) s) of
              None \<Rightarrow> Inl (ValueError, c1)
            | Some i \<Rightarrow>
                (let nxt = (if i + 1 < length (sections c) then Some (i + 1) else None);
                     prv = (if int i - 1 \<ge> 0 then Some (i - 1) else None);
                     c2 = c1\<lparr>section_pos := i, next_section_pos := nxt, prev_section_pos := prv\<rparr>
                 in if i < length (sections c)
                    then Inr (c2\<lparr>coll_section := Some (sections c ! i),
                                 next_section := map_option (\<lambda>j. sections c ! j) nxt,
                                 prev_section := map_option (\<lambda>j. sections c ! j) prv\<rparr>)
                    else Inl (IndexError, c2))))"

text \<open>
  \<open>BaseCollection.__getitem__\<close>: the loop over \<open>range(0, len(self.forms)+1)\<close>, with the
  running \<open>fake_index\<close>. It answers the position in \<open>forms\<close> of the form it returns;
  reading the mask or the forms out of range raises \<open>IndexError\<close>, and a loop that runs
  out returns \<open>None\<close>.
\<close>

function getitem_loop :: "collection \<Rightarrow> int \<Rightarrow> nat \<Rightarrow> int \<Rightarrow> error + nat option" where
  "getitem_loop c arg i fake_index =
     (if i < length (forms c) + 1 then
        (if i < length (form_existence c) then
           (let fake_index' = (if form_existence c ! i then fake_index + 1 else fake_index) in
            if fake_index' = arg
            then (if i < length (forms c) then Inr (Some i) else Inl IndexError)
            else getitem_loop c arg (i + 1) fake_index')
         else Inl IndexError)
      else Inr None)"
  by pat_completeness auto
termination
  by (relation "measure (\<lambda>(c, arg, i, fake_index). length (forms c) + 1 - i)") auto

definition getitem :: "collection \<Rightarrow> int \<Rightarrow> error + form option" where
  "getitem c arg = map_sum id (map_option (\<lambda>i. forms c ! i)) (getitem_loop c arg 0 (- 1))"

text \<open>\<open>BaseCollection.__len__\<close>.\<close>

definition len :: "collection \<Rightarrow> nat" where
  "len c = length (filter (\<lambda>truth. truth) (form_existence c))"

text \<open>
  The equation of the loop is unfolded by hand: left to the simplifier it would be
  unfolded without end.
\<close>

declare getitem_loop.simps [simp del]

lemma getitem_loop_bound:
  "getitem_loop c arg i fake = Inr (Some j) \<Longrightarrow> fake < int i \<Longrightarrow>
   arg \<le> int j \<and> j < length (forms c)"
proof (induction c arg i fake rule: getitem_loop.induct)
  case (1 c arg i fake_index)
  show ?case
  proof (cases "i < length (forms c) + 1 \<and> i < length (form_existence c)")
    case False
    with "1.prems" show ?thesis
      by (subst (asm) getitem_loop.simps) (auto split: if_splits)
  next
    case True
    define fake' where "fake' = (if form_existence c ! i then fake_index + 1 else fake_index)"
    have le: "fake' \<le> int i" using "1.prems"(2) by (simp add: fake'_def)
    show ?thesis
    proof (cases "fake' = arg")
      case eq: True
      with True "1.prems"(1) le show ?thesis
        by (subst (asm) getitem_loop.simps) (auto simp: fake'_def Let_def split: if_splits)
    next
      case ne: False
      with True "1.prems"(1) have rec: "getitem_loop c arg (i + 1) fake' = Inr (Some j)"
        by (subst (asm) getitem_loop.simps) (simp add: fake'_def Let_def)
      have "fake' < int (i + 1)" using le by simp
      with "1.IH"[OF _ _ fake'_def ne rec] True show ?thesis by simp
    qed
  qed
qed

text \<open>
  \<open>BaseCollection.is_valid\<close>. The class has no \<open>__iter__\<close>, so \<open>for form in self\<close> asks
  \<open>__getitem__\<close> for 0, 1, 2, ... until it raises \<open>IndexError\<close>. The forms are objects that
  validation changes in place, so the loop hands on the collection with the validated
  form put back; \<open>called\<close> lists, in order, the positions of the forms whose \<open>is_valid\<close>
  has been called. A \<open>None\<close> from \<open>__getitem__\<close> has no \<open>is_valid\<close>: \<open>AttributeError\<close>.
\<close>

function is_valid_loop ::
  "(form \<Rightarrow> bool \<times> form) \<Rightarrow> settings \<Rightarrow> collection \<Rightarrow> nat \<Rightarrow> nat list
     \<Rightarrow> (error + bool) \<times> collection \<times> nat list"
where
  "is_valid_loop base_is_valid S c k called =
     (case getitem_loop c (int k) 0 (- 1) of
        Inl e \<Rightarrow> (if e = IndexError then (Inr True, c, called) else (Inl e, c, called))
      | Inr None \<Rightarrow> (Inl AttributeError, c, called)
      | Inr (Some i) \<Rightarrow>
          (case is_valid base_is_valid S (forms c ! i) of
             (ok, f') \<Rightarrow>
               (if \<not> ok then (Inr False, c\<lparr>forms := (forms c)[i := f']\<rparr>, called @ [i])
                else is_valid_loop base_is_valid S (c\<lparr>forms := (forms c)[i := f']\<rparr>) (k + 1)
                       (called @ [i]))))"
  by pat_completeness auto
termination is_valid_loop
  apply (relation "measure (\<lambda>(b, S, c, k, called). length (forms c) + 1 - k)")
   apply simp
  subgoal for base_is_valid S c k called b i ok f'
    using getitem_loop_bound[of c "int k" 0 "- 1" i] by simp arith
  done

declare is_valid_loop.simps [simp del]

definition collection_is_valid ::
  "(form \<Rightarrow> bool \<times> form) \<Rightarrow> settings \<Rightarrow> collection \<Rightarrow> (error + bool) \<times> collection \<times> nat list"
where
  "collection_is_valid base_is_valid S c = is_valid_loop base_is_valid S c 0 []"

text \<open>
  Subscripting a Python list with a slice gives the sublist (bounds counted from the end
  when negative, and clipped); with a tuple it raises \<open>TypeError\<close>.
\<close>

definition py_slice :: "'a list \<Rightarrow> int \<Rightarrow> int \<Rightarrow> 'a list" where
  "py_slice xs a b =
     (let n = int (length xs);
          lo = (if a < 0 then max (a + n) 0 else min a n);
          hi = (if b < 0 then max (b + n) 0 else min b n)
      in take (nat (hi - lo)) (drop (nat lo) xs))"

datatype subscript = SliceKey int int | TupleKey int int

fun list_getitem :: "'a list \<Rightarrow> subscript \<Rightarrow> error + 'a list" where
  "list_getitem xs (SliceKey a b) = Inr (py_slice xs a b)"
| "list_getitem xs (TupleKey a b) = Inl TypeError"

text \<open>
  \<open>BaseCollection.__init__\<close>: the attributes are stored and \<open>set_section()\<close> makes every
  form visible. An exception in the constructor leaves no object behind.
\<close>

definition init ::
  "string \<Rightarrow> string \<Rightarrow> string \<Rightarrow> form list \<Rightarrow> section_row list \<Rightarrow> error + collection"
where
  "init t d s fs secs =
     (case set_section
             \<lparr>title = t, description = d, coll_slug = s, forms = fs, sections = secs,
              form_existence = [], section_pos = 0, next_section_pos = None,
              prev_section_pos = None, coll_section = None, next_section = None,
              prev_section = None\<rparr> NoSection of
        Inl (e, c) \<Rightarrow> Inl e
      | Inr c \<Rightarrow> Inr c)"

text \<open>
  The call \<open>BaseCollection(title=..., description=..., slug=..., forms=..., sections=...)\<close>
  with keyword arguments; an argument the call leaves out is \<open>None\<close>. All five are
  required, and Python raises \<open>TypeError\<close> before the constructor's body when one is
  missing.
\<close>

definition new_collection ::
  "string option \<Rightarrow> string option \<Rightarrow> string option \<Rightarrow> form list option
     \<Rightarrow> section_row list option \<Rightarrow> error + collection"
where
  "new_collection t d s fs secs =
     (case (t, d, s, fs, secs) of
        (Some t', Some d', Some s', Some fs', Some secs') \<Rightarrow> init t' d' s' fs' secs'
      | _ \<Rightarrow> Inl TypeError)"

text \<open>
  \<open>BaseCollection.__getslice__(start, end)\<close>. The arguments of the constructor call are
  evaluated first, in their order; the last of them is \<open>self.forms[start, end]\<close>.
\<close>

definition getslice :: "collection \<Rightarrow> int \<Rightarrow> int \<Rightarrow> error + collection" where
  "getslice c start end' =
     (case list_getitem (forms c) (TupleKey start end') of
        Inl e \<Rightarrow> Inl e
      | Inr fs \<Rightarrow>
          new_collection (Some (title c)) (Some (description c)) (Some (coll_slug c)) (Some fs) None)"

section \<open>Stored answers\<close>

text \<open>
  A row of \<open>Answer.objects.get_answer_data(submission)\<close>, a query of \<open>models.py\<close> that is
  not among the sources at hand: \<open>get_answers\<close> takes its rows as they come. \<open>content\<close> is the
  list of the stored values, \<open>None\<close> for a value that is null.
\<close>

record answer_data =
  field_slug :: string
  dataform_slug :: string
  field_type :: string
  content :: "string option list"

text \<open>What a key of the result maps to: the whole list, or its first element.\<close>

datatype answer_value = Many "string option list" | Single "string option"

fun get_answers_loop ::
  "settings \<Rightarrow> bool \<Rightarrow> answer_data list \<Rightarrow> (string \<rightharpoonup> answer_value)
     \<Rightarrow> error + (string \<rightharpoonup> answer_value)"
where
  "get_answers_loop S for_form [] data = Inr data"
| "get_answers_loop S for_form (answer # answers) data =
     (let answer_key = (if for_form
                        then field_for_form S (field_slug answer) (dataform_slug answer)
                        else field_slug answer)
      in if content answer \<noteq> [] \<and> True \<notin> set (map (\<lambda>item. item \<noteq> None) (content answer))
         then get_answers_loop S for_form answers data
         else if field_type answer \<in> set (MULTI_CHOICE_FIELDS S @ MULTI_NUMBER_FIELDS S)
         then get_answers_loop S for_form answers (data(answer_key \<mapsto> Many (content answer)))
         else (case content answer of
                 [] \<Rightarrow> Inl IndexError
               | item # _ \<Rightarrow> get_answers_loop S for_form answers (data(answer_key \<mapsto> Single item))))"

definition get_answers ::
  "settings \<Rightarrow> answer_data list \<Rightarrow> bool \<Rightarrow> error + (string \<rightharpoonup> answer_value)"
where
  "get_answers S answers for_form = get_answers_loop S for_form answers Map.empty"

section \<open>Saving a form\<close>

text \<open>
  The tables that \<open>save\<close> reads and writes. The models live in \<open>models.py\<close>, which is
  not among the sources at hand; a table is the list of its rows in the order of their creation,
  and a row is referred to by its position (its primary key: \<open>save\<close> never deletes a row
  of these tables). The rows of \<open>AnswerChoice\<close>, \<open>AnswerNumber\<close> and \<open>AnswerText\<close> are kept
  with the \<open>Answer\<close> row their foreign key names, in the order of their creation; their
  own primary keys are not modelled.
\<close>

record answer =
  answer_submission :: nat
  answer_field :: nat
  answer_data_form :: nat
  answerchoice_set :: "nat list"
  answernumber_set :: "string list"
  answertext_set :: "string list"

record database =
  submission_rows :: "string list"
  field_rows :: "(string \<times> string) list"
  dataform_rows :: "string list"
  choice_rows :: "string list"
  answer_rows :: "answer list"

text \<open>Running one step after another, an exception ending the run.\<close>

definition then_do :: "error + 'a \<Rightarrow> ('a \<Rightarrow> error + 'b) \<Rightarrow> error + 'b" where
  "then_do m k = (case m of Inl e \<Rightarrow> Inl e | Inr x \<Rightarrow> k x)"

text \<open>
  \<open>objects.filter(...)\<close> gives the rows that match, \<open>objects.get(...)\<close> the one row that
  does, \<open>DoesNotExist\<close> without one and \<open>MultipleObjectsReturned\<close> with several.
\<close>

definition matching :: "('a \<Rightarrow> bool) \<Rightarrow> 'a list \<Rightarrow> nat list" where
  "matching P rows = filter (\<lambda>i. P (rows ! i)) [0..<length rows]"

definition get_row :: "('a \<Rightarrow> bool) \<Rightarrow> 'a list \<Rightarrow> error + nat" where
  "get_row P rows =
     (case matching P rows of
        [] \<Rightarrow> Inl DoesNotExist
      | [i] \<Rightarrow> Inr i
      | _ \<Rightarrow> Inl MultipleObjectsReturned)"

text \<open>\<open>Submission.objects.get_or_create(slug=...)\<close>: the row, and the table with it.\<close>

definition get_or_create_submission :: "database \<Rightarrow> string \<Rightarrow> error + nat \<times> database" where
  "get_or_create_submission db s =
     (case get_row (\<lambda>row. row = s) (submission_rows db) of
        Inr i \<Rightarrow> Inr (i, db)
      | Inl e \<Rightarrow>
          (if e = DoesNotExist
           then Inr (length (submission_rows db), db\<lparr>submission_rows := submission_rows db @ [s]\<rparr>)
           else Inl e))"

text \<open>
  \<open>Answer.objects.get_or_create(submission=..., field=..., data_form=...)\<close>: the row,
  whether it was created, and the table with it. A new answer has no values yet.
\<close>

definition answer_for :: "nat \<Rightarrow> nat \<Rightarrow> nat \<Rightarrow> answer \<Rightarrow> bool" where
  "answer_for sub fld frm row =
     (answer_submission row = sub \<and> answer_field row = fld \<and> answer_data_form row = frm)"

definition get_or_create_answer ::
  "database \<Rightarrow> nat \<Rightarrow> nat \<Rightarrow> nat \<Rightarrow> error + nat \<times> bool \<times> database"
where
  "get_or_create_answer db sub fld frm =
     (case get_row (answer_for sub fld frm) (answer_rows db) of
        Inr i \<Rightarrow> Inr (i, False, db)
      | Inl e \<Rightarrow>
          (if e = DoesNotExist
           then Inr (length (answer_rows db), True,
                     db\<lparr>answer_rows := answer_rows db @
                          [\<lparr>answer_submission = sub, answer_field = fld, answer_data_form = frm,
                            answerchoice_set = [], answernumber_set = [], answertext_set = []\<rparr>]\<rparr>)
           else Inl e))"

text \<open>
  \<open>self.cleaned_data[key]\<close>: \<open>AttributeError\<close> before validation has run, \<open>KeyError\<close>
  for a key without a cleaned value.
\<close>

definition cleaned_value :: "form \<Rightarrow> string \<Rightarrow> error + cleaned" where
  "cleaned_value f key =
     (case cleaned_data f of
        None \<Rightarrow> Inl AttributeError
      | Some data \<Rightarrow> (case data key of None \<Rightarrow> Inl KeyError | Some v \<Rightarrow> Inr v))"

text \<open>
  The elements of a cleaned value where the code takes its length, subscripts it or
  iterates over it: those of a list, the characters of a string; a boolean and \<open>None\<close>
  have none (\<open>TypeError\<close>). Its truth value is Python's.
\<close>

definition elements :: "cleaned \<Rightarrow> error + string list" where
  "elements v =
     (case v of
        Str s \<Rightarrow> Inr (map (\<lambda>c. [c]) s)
      | Items xs \<Rightarrow> Inr xs
      | _ \<Rightarrow> Inl TypeError)"

definition truthy :: "cleaned \<Rightarrow> bool" where
  "truthy v = (case v of Str s \<Rightarrow> s \<noteq> [] | Items xs \<Rightarrow> xs \<noteq> [] | Flag b \<Rightarrow> b | NoValue \<Rightarrow> False)"

text \<open>
  The text column holds text: a string as it is, any other value as the text the framework
  writes for it, which is the parameter \<open>text_of\<close>. The stored text of the row never
  equals a value that is not a string.
\<close>

definition stored_text :: "(cleaned \<Rightarrow> string) \<Rightarrow> cleaned \<Rightarrow> string" where
  "stored_text text_of v = (case v of Str s \<Rightarrow> s | _ \<Rightarrow> text_of v)"

definition differs :: "string \<Rightarrow> cleaned \<Rightarrow> bool" where
  "differs t v = (case v of Str s \<Rightarrow> t \<noteq> s | _ \<Rightarrow> True)"

text \<open>
  The four storage branches of the loop of \<open>save\<close>, for the cleaned value \<open>v\<close> of the key
  and the answer row \<open>a\<close>. Each returns the cleaned value of the key as it leaves it and
  the answer with its new values.

  The choice branch deletes the stored choices, wraps a string as a list (and stores the
  list back into \<open>cleaned_data\<close>), and creates a row for every choice that
  \<open>Choice.objects.filter(value__in=...)\<close> selects: among all the choices of the table, by
  value; they are taken in the order of the table.
\<close>

definition store_choices :: "string list \<Rightarrow> cleaned \<Rightarrow> answer \<Rightarrow> error + cleaned \<times> answer" where
  "store_choices choices v a =
     (case (case v of Str s \<Rightarrow> Items [s] | _ \<Rightarrow> v) of
        Items xs \<Rightarrow>
          Inr (Items xs, a\<lparr>answerchoice_set := matching (\<lambda>value. value \<in> set xs) choices\<rparr>)
      | _ \<Rightarrow> Inl TypeError)"

text \<open>
  The single-number branch asserts that the cleaned value has one element, deletes the
  stored numbers and creates one for that element.
\<close>

definition store_single_number :: "cleaned \<Rightarrow> answer \<Rightarrow> error + cleaned \<times> answer" where
  "store_single_number v a =
     then_do (elements v) (\<lambda>xs.
       if length xs \<noteq> 1 then Inl AssertionError
       else Inr (v, a\<lparr>answernumber_set := [xs ! 0]\<rparr>))"

text \<open>The multi-number branch deletes the stored numbers and creates one for every element.\<close>

definition store_numbers :: "cleaned \<Rightarrow> answer \<Rightarrow> error + cleaned \<times> answer" where
  "store_numbers v a = then_do (elements v) (\<lambda>xs. Inr (v, a\<lparr>answernumber_set := xs\<rparr>))"

text \<open>
  The text branch creates the text of a new answer; for an answer that existed it fetches
  the one text (\<open>MultipleObjectsReturned\<close> with several), creates it when there is none,
  and writes it again when it differs from the content.
\<close>

definition store_text ::
  "(cleaned \<Rightarrow> string) \<Rightarrow> bool \<Rightarrow> cleaned \<Rightarrow> answer \<Rightarrow> error + cleaned \<times> answer"
where
  "store_text text_of was_created v a =
     (let content = (if truthy v then v else Str [])
      in if was_created
         then Inr (v, a\<lparr>answertext_set := answertext_set a @ [stored_text text_of content]\<rparr>)
         else (case answertext_set a of
                 [] \<Rightarrow> Inr (v, a\<lparr>answertext_set := [stored_text text_of content]\<rparr>)
               | [t] \<Rightarrow>
                   (if differs t content
                    then Inr (v, a\<lparr>answertext_set := [stored_text text_of content]\<rparr>)
                    else Inr (v, a))
               | _ \<Rightarrow> Inl MultipleObjectsReturned))"

text \<open>
  The body of the loop from the test of the field type on. Every branch reads
  \<open>self.cleaned_data[key]\<close>, here \<open>cv\<close>, and raises what that raises.
\<close>

definition store_answer ::
  "(cleaned \<Rightarrow> string) \<Rightarrow> settings \<Rightarrow> string list \<Rightarrow> string \<Rightarrow> bool \<Rightarrow> error + cleaned
     \<Rightarrow> answer \<Rightarrow> error + cleaned \<times> answer"
where
  "store_answer text_of S choices ftype was_created cv a =
     (if ftype \<in> set (CHOICE_FIELDS S) then
        then_do cv (\<lambda>v. store_choices choices v a)
      else if ftype \<in> set (SINGLE_NUMBER_FIELDS S) then
        then_do cv (\<lambda>v. store_single_number v a)
      else if ftype \<in> set (MULTI_NUMBER_FIELDS S) then
        then_do cv (\<lambda>v. store_numbers v a)
      else
        then_do cv (\<lambda>v. store_text text_of was_created v a))"

text \<open>
  \<open>Field.objects.get(slug=_field_for_db(key))\<close>: the row of the field that a key of the
  form names. (The unpacking is not asked for a pair here, and returns none.)
\<close>

definition field_of :: "settings \<Rightarrow> database \<Rightarrow> string \<Rightarrow> error + nat" where
  "field_of S db key =
     then_do (field_for_db S key False) (\<lambda>unpacked.
     then_do (case unpacked of FieldName name \<Rightarrow> Inr name | FormAndField _ _ \<Rightarrow> Inl TypeError) (\<lambda>name.
       get_row (\<lambda>row. fst row = name) (field_rows db)))"

text \<open>
  One round of the loop of \<open>save\<close>, for the key \<open>key\<close>: the field, the submission of the
  form, the form's own row by its slug, the answer, and the storage branch. An exception
  ends \<open>save\<close>, and what the round had written by then is not handed on.
\<close>

definition save_key ::
  "(cleaned \<Rightarrow> string) \<Rightarrow> settings \<Rightarrow> string \<Rightarrow> form \<Rightarrow> database \<Rightarrow> error + form \<times> database"
where
  "save_key text_of S key f db =
     then_do (field_of S db key) (\<lambda>field.
     then_do (case submission f of None \<Rightarrow> Inl AttributeError | Some sub \<Rightarrow> Inr sub) (\<lambda>sub.
     then_do (get_row (\<lambda>row. row = slug f) (dataform_rows db)) (\<lambda>data_form.
     then_do (get_or_create_answer db sub field data_form) (\<lambda>(a, was_created, db1).
     then_do (store_answer text_of S (choice_rows db1) (snd (field_rows db1 ! field)) was_created
                (cleaned_value f key) (answer_rows db1 ! a)) (\<lambda>(v, row).
       Inr (f\<lparr>cleaned_data := map_option (\<lambda>data. data(key \<mapsto> v)) (cleaned_data f)\<rparr>,
            db1\<lparr>answer_rows := (answer_rows db1)[a := row]\<rparr>))))))"

fun save_loop ::
  "(cleaned \<Rightarrow> string) \<Rightarrow> settings \<Rightarrow> string list \<Rightarrow> form \<Rightarrow> database \<Rightarrow> error + form \<times> database"
where
  "save_loop text_of S [] f db = Inr (f, db)"
| "save_loop text_of S (key # keys) f db =
     then_do (save_key text_of S key f db) (\<lambda>(f', db'). save_loop text_of S keys f' db')"

text \<open>
  \<open>BaseDataForm.save\<close>: the submission is got or created by its slug unless the form has
  one already, then every key of the form is saved in turn.
\<close>

definition save ::
  "(cleaned \<Rightarrow> string) \<Rightarrow> settings \<Rightarrow> form \<Rightarrow> database \<Rightarrow> error + form \<times> database"
where
  "save text_of S f db =
     then_do (case submission f of
                Some sub \<Rightarrow> Inr (f, db)
              | None \<Rightarrow>
                  then_do (case submission_slug f of
                             None \<Rightarrow> Inl AttributeError
                           | Some s \<Rightarrow> Inr s) (\<lambda>s.
                  then_do (get_or_create_submission db s) (\<lambda>(sub, db').
                    Inr (f\<lparr>submission := Some sub\<rparr>, db'))))
       (\<lambda>(f', db'). save_loop text_of S (field_keys f') f' db')"

section \<open>Example data\<close>

text \<open>
  Settings in the style of the package's defaults, with the delimiter that the docstring
  of \<open>_field_for_db\<close> shows (\<open>form-name--field-name\<close>), and a collection of three forms
  tagged with the sections \<open>s1\<close>, \<open>s1\<close> and \<open>s2\<close>, as \<open>create_collection\<close> builds it.
\<close>

definition example_settings :: settings where
  "example_settings =
     \<lparr>FIELD_DELIMITER = ''--'', HIDDEN_BINDINGS_SLUG = ''js_dataform_bindings'',
      CHOICE_FIELDS = [''Select'', ''SelectMultiple''], MULTI_CHOICE_FIELDS = [''SelectMultiple''],
      SINGLE_NUMBER_FIELDS = [''IntegerInput''], MULTI_NUMBER_FIELDS = [''MultiInteger'']\<rparr>"

definition example_form :: "string \<Rightarrow> string \<Rightarrow> form" where
  "example_form s sec =
     \<lparr>slug = s, meta_slug = s, form_section = Some sec, submission_slug = Some ''submission-1'',
      submission = None, field_keys = [s @ ''--name''], cleaned_data = None\<rparr>"

definition example_collection :: collection where
  "example_collection =
     \<lparr>title = ''Survey'', description = ''Three forms in two sections'', coll_slug = ''survey'',
      forms = [example_form ''a'' ''s1'', example_form ''b'' ''s1'', example_form ''c'' ''s2''],
      sections = [Section ''s1'', Section ''s2''],
      form_existence = [True, True, True], section_pos = 0, next_section_pos = Some 1,
      prev_section_pos = None, coll_section = Some (Section ''s1''),
      next_section = Some (Section ''s2''), prev_section = None\<rparr>"

lemma init_example_collection:
  "init ''Survey'' ''Three forms in two sections'' ''survey''
     [example_form ''a'' ''s1'', example_form ''b'' ''s1'', example_form ''c'' ''s2'']
     [Section ''s1'', Section ''s2''] = Inr example_collection"
  by (simp add: init_def set_section_def example_collection_def Let_def)

section \<open>Key mangling: the round trip\<close>

text \<open>
  Splitting a mangled key gives back the two slugs when the first occurrence of the
  delimiter in the key is the one that the mangling put there, that is, when the delimiter
  does not occur in the form slug followed by the delimiter without its last character,
  and the field slug holds no delimiter.
\<close>

lemma split_from_no_separator:
  "\<not> contains d f \<Longrightarrow> split_from d acc f = [acc @ f]"
  by (induction f arbitrary: acc) auto

lemma split_from_first:
  "d \<noteq> [] \<Longrightarrow> \<not> contains d (s @ butlast d) \<Longrightarrow>
   split_from d acc (s @ d @ f) = (acc @ s) # split_from d [] f"
proof (induction s arbitrary: acc)
  case Nil
  from Nil(1) obtain c cs where d: "d = c # cs" by (cases d) auto
  then show ?case by simp
next
  case (Cons a s)
  have len: "length d \<le> length ((a # s) @ butlast d)" by simp
  from Cons.prems(2) have no: "take (length d) ((a # s) @ butlast d) \<noteq> d"
    and rest: "\<not> contains d (s @ butlast d)" by simp_all
  have "(a # s) @ d @ f = ((a # s) @ butlast d) @ (last d # f)"
    using Cons.prems(1) by simp
  then have "take (length d) ((a # s) @ d @ f) = take (length d) ((a # s) @ butlast d)"
    using len by (metis append_Nil2 diff_is_0_eq take_0 take_append)
  with no have "take (length d) (a # s @ d @ f) \<noteq> d" by simp
  then have "split_from d acc ((a # s) @ d @ f) = split_from d (acc @ [a]) (s @ d @ f)"
    by simp
  with Cons.IH[OF Cons.prems(1) rest, of "acc @ [a]"] show ?case by simp
qed

lemma split_mangled:
  assumes "d \<noteq> []" "\<not> contains d (s @ butlast d)" "\<not> contains d f"
  shows "split (s @ d @ f) d = Inr [s, f]"
  using split_from_first[OF assms(1,2), of "[]" f] split_from_no_separator[OF assms(3), of "[]"] assms(1)
  by (simp add: split_def)

lemma contains_prefix: "contains p (p @ xs)"
proof (cases "p @ xs")
  case Nil
  then show ?thesis by simp
next
  case (Cons a list)
  have "take (length p) (p @ xs) = p" by simp
  with Cons show ?thesis by simp
qed

text \<open>For a delimiter of one character the condition is that the slugs do not hold it.\<close>

lemma contains_single: "contains [c] xs = (c \<in> set xs)"
  by (induction xs) auto

lemma field_for_db_single_delimiter:
  "FIELD_DELIMITER S = [c] \<Longrightarrow> c \<notin> set form_slug \<Longrightarrow> c \<notin> set name \<Longrightarrow>
   field_for_db S (field_for_form S name form_slug) False = Inr (FieldName name)"
  using split_mangled[of "[c]" form_slug name]
  by (simp add: field_for_db_def field_for_form_def contains_single)

text \<open>
  In packed mode the code tests whether \<open>id_\<close> occurs anywhere in the form component and
  then drops its first three characters, where the docstring shows a leading \<open>id_\<close>: the
  form slug \<open>valid_form\<close> comes back as \<open>id_form\<close>.
\<close>

lemma field_for_db_strips_inner_id:
  "field_for_db example_settings (field_for_form example_settings ''x'' ''valid_form'') True
     = Inr (FormAndField ''id_form'' ''x'')"
  by (simp add: example_settings_def field_for_db_def field_for_form_def split_def)

text \<open>
  Claim C2, amended: for a field slug without the delimiter and a form slug in which,
  followed by the delimiter without its last character, the delimiter does not occur,
  unpacking the mangled key returns the field slug; in packed mode it returns the form
  slug and the field slug when \<open>id_\<close> does not occur in the form slug, and the form slug
  without its prefix when the form slug starts with \<open>id_\<close>.
\<close>

theorem unpack_form_key:
  assumes "FIELD_DELIMITER S \<noteq> []"
    and "\<not> contains (FIELD_DELIMITER S) (s @ butlast (FIELD_DELIMITER S))"
    and "\<not> contains (FIELD_DELIMITER S) f"
  shows "field_for_db S (field_for_form S f s) False = Inr (FieldName f) \<and>
         (\<not> contains ''id_'' s \<longrightarrow>
            field_for_db S (field_for_form S f s) True = Inr (FormAndField s f)) \<and>
         (\<forall>s'. s = ''id_'' @ s' \<longrightarrow>
            field_for_db S (field_for_form S f s) True = Inr (FormAndField s' f))"
  using split_mangled[OF assms] contains_prefix[of "''id_''"]
  by (auto simp: field_for_db_def field_for_form_def)

theorem unpack_form_key_witness:
  "field_for_db example_settings (field_for_form example_settings ''first-name'' ''profile'') False
     = Inr (FieldName ''first-name'') \<and>
   field_for_db example_settings (field_for_form example_settings ''first-name'' ''profile'') True
     = Inr (FormAndField ''profile'' ''first-name'') \<and>
   field_for_db example_settings (field_for_form example_settings ''first-name'' ''id_profile'') True
     = Inr (FormAndField ''profile'' ''first-name'')"
proof -
  have d: "FIELD_DELIMITER example_settings \<noteq> []"
    and f: "\<not> contains (FIELD_DELIMITER example_settings) ''first-name''"
    and s1: "\<not> contains (FIELD_DELIMITER example_settings)
               (''profile'' @ butlast (FIELD_DELIMITER example_settings))"
    and s2: "\<not> contains (FIELD_DELIMITER example_settings)
               (''id_profile'' @ butlast (FIELD_DELIMITER example_settings))"
    by (simp_all add: example_settings_def)
  have n: "\<not> contains ''id_'' ''profile''" by simp
  from unpack_form_key[OF d s1 f] unpack_form_key[OF d s2 f] n show ?thesis by simp
qed

text \<open>
  Claim C2 as stated fails: with the delimiter \<open>--\<close> of the docstring, the form slug \<open>a-\<close>
  and the field slug \<open>b\<close> hold no delimiter, but the first delimiter of the mangled key
  \<open>a---b\<close> starts inside the form slug and the key unpacks to \<open>-b\<close>. No unpacking could
  do better: the slugs \<open>a\<close> and \<open>-b\<close> are mangled to the same key.
\<close>

theorem unpack_straddling_delimiter:
  "\<not> contains (FIELD_DELIMITER example_settings) ''a-'' \<and>
   \<not> contains (FIELD_DELIMITER example_settings) ''b'' \<and>
   field_for_db example_settings (field_for_form example_settings ''b'' ''a-'') False
     = Inr (FieldName ''-b'') \<and>
   field_for_form example_settings ''b'' ''a-'' = field_for_form example_settings ''-b'' ''a''"
  by (simp add: example_settings_def field_for_db_def field_for_form_def split_def)

section \<open>Bindings: the tuples\<close>

text \<open>
  What the specification asks of one binding: a pair when the parent field is set, a
  triple when (otherwise) the parent choice is set, nothing when neither is.
\<close>

definition expected_tuple :: "settings \<Rightarrow> string \<Rightarrow> binding \<Rightarrow> binding_tuple option" where
  "expected_tuple S form_slug b =
     (case parent_field b of
        Some pf \<Rightarrow> Some (Tuple2 (field_for_form S pf form_slug) (field_for_form S (child b) form_slug))
      | None \<Rightarrow>
          (case parent_choice b of
             Some (cf, cv) \<Rightarrow>
               Some (Tuple3 (field_for_form S cf form_slug) cv (field_for_form S (child b) form_slug))
           | None \<Rightarrow> None))"

lemma get_bindings_loop_those:
  "get_bindings_loop S form_slug bs data =
     (case those (map (expected_tuple S form_slug) bs) of
        Some ts \<Rightarrow> Inr (data @ ts)
      | None \<Rightarrow> Inl FieldError)"
  by (induction bs arbitrary: data)
     (auto simp: expected_tuple_def Let_def split: option.splits)

text \<open>
  Claim C9: \<open>get_bindings\<close> emits, binding by binding and in order, the pair of mangled
  parent and child keys for a binding whose parent field is set and the triple of mangled
  parent key, choice value and mangled child key for one whose parent choice is set; it
  raises \<open>FieldError\<close> as soon as a binding has neither.
\<close>

theorem get_bindings_tuples:
  "get_bindings S form_slug bs =
     (case those (map (expected_tuple S form_slug) bs) of
        Some ts \<Rightarrow> Inr ts
      | None \<Rightarrow> Inl FieldError)"
  by (simp add: get_bindings_def get_bindings_loop_those split: option.splits)

theorem get_bindings_tuples_witness:
  "get_bindings example_settings ''profile''
     [\<lparr>child = ''city'', parent_field = Some ''has_address'', parent_choice = None\<rparr>,
      \<lparr>child = ''state'', parent_field = None, parent_choice = Some (''country'', ''us'')\<rparr>]
     = Inr [Tuple2 ''profile--has_address'' ''profile--city'',
            Tuple3 ''profile--country'' ''us'' ''profile--state''] \<and>
   get_bindings example_settings ''profile''
     [\<lparr>child = ''city'', parent_field = None, parent_choice = None\<rparr>] = Inl FieldError"
  unfolding get_bindings_tuples
  by (simp add: expected_tuple_def field_for_form_def example_settings_def)

section \<open>Collections: slicing\<close>

text \<open>
  Claim C10: taking a slice of a collection always raises and never returns a
  sub-collection: \<open>self.forms\<close> is subscripted with the tuple \<open>(start, end)\<close>, which raises
  \<open>TypeError\<close>, and the constructor call that would follow names no \<open>sections\<close>, which
  raises \<open>TypeError\<close> whatever the forms are.
\<close>

theorem getslice_raises:
  "getslice c start end' = Inl TypeError \<and>
   (\<forall>fs. new_collection (Some (title c)) (Some (description c)) (Some (coll_slug c)) (Some fs) None
      = Inl TypeError)"
  by (simp add: getslice_def new_collection_def)

section \<open>Collections: the mask\<close>

text \<open>
  The collection as a call of \<open>set_section\<close> leaves it, and the exception it raised.
\<close>

definition after :: "(error \<times> collection) + collection \<Rightarrow> collection" where
  "after r = (case r of Inl (e, c) \<Rightarrow> c | Inr c \<Rightarrow> c)"

definition raised :: "(error \<times> collection) + collection \<Rightarrow> error option" where
  "raised r = (case r of Inl (e, c) \<Rightarrow> Some e | Inr c \<Rightarrow> None)"

definition selects :: "section_arg \<Rightarrow> form \<Rightarrow> bool" where
  "selects arg f =
     (case arg of
        NoSection \<Rightarrow> True
      | BySlug s \<Rightarrow> form_section f = Some s
      | ByObject row \<Rightarrow> form_section f = Some (section_slug row))"

text \<open>
  Claim C7: \<open>set_section\<close> sets the mask to exactly the forms tagged with the section
  asked for, to every form when no section is given, so that the length of the collection
  is the number of those forms; and it raises \<open>SectionDoesNotExist\<close> exactly when no form
  is selected.
\<close>

theorem set_section_mask:
  "form_existence (after (set_section c arg)) = map (selects arg) (forms c) \<and>
   len (after (set_section c arg)) = length (filter (selects arg) (forms c)) \<and>
   (raised (set_section c arg) = Some SectionDoesNotExist) = (filter (selects arg) (forms c) = [])"
proof -
  have mask: "form_existence (after (set_section c arg)) = map (selects arg) (forms c)"
    by (cases arg) (auto simp: set_section_def after_def selects_def Let_def split: option.splits)
  have none: "(True \<notin> set (map P xs)) = (filter P xs = [])" for P :: "form \<Rightarrow> bool" and xs
    by (induction xs) auto
  have r: "(raised (set_section c arg) = Some SectionDoesNotExist) = (True \<notin> set (map (selects arg) (forms c)))"
    by (cases arg) (auto simp: set_section_def raised_def selects_def Let_def split: option.splits)
  have "len (after (set_section c arg)) = length (filter (selects arg) (forms c))"
    unfolding len_def mask by (simp add: comp_def)
  with mask r none[of "selects arg" "forms c"] show ?thesis by simp
qed

theorem set_section_mask_witness:
  "len (after (set_section example_collection (BySlug ''s2''))) = 1 \<and>
   len (after (set_section example_collection NoSection)) = 3 \<and>
   raised (set_section example_collection (BySlug ''s3'')) = Some SectionDoesNotExist \<and>
   raised (set_section example_collection (BySlug ''s2'')) = None"
  using set_section_mask[of example_collection "BySlug ''s2''"]
        set_section_mask[of example_collection NoSection]
        set_section_mask[of example_collection "BySlug ''s3''"]
  by (simp add: example_collection_def example_form_def selects_def set_section_def raised_def Let_def)

text \<open>The visible forms: those whose mask entry is true, in the order of the list.\<close>

definition visible :: "'a list \<Rightarrow> bool list \<Rightarrow> 'a list" where
  "visible xs flags = map fst (filter snd (zip xs flags))"

definition visible_forms :: "collection \<Rightarrow> form list" where
  "visible_forms c = visible (forms c) (form_existence c)"

lemma visible_Cons: "visible (x # xs) (b # bs) = (if b then x # visible xs bs else visible xs bs)"
  by (simp add: visible_def)

lemma visible_Nil: "visible [] bs = []" "visible xs [] = []"
  by (simp_all add: visible_def)

lemma length_visible: "length xs = length bs \<Longrightarrow> length (visible xs bs) = length (filter (\<lambda>t. t) bs)"
  by (induction xs bs rule: list_induct2) (simp_all add: visible_Nil visible_Cons)

lemma getitem_loop_found:
  "length (form_existence c) = length (forms c) \<Longrightarrow> fake < arg \<Longrightarrow>
   nat (arg - fake - 1) < length (visible (drop i (forms c)) (drop i (form_existence c))) \<Longrightarrow>
   \<exists>j. getitem_loop c arg i fake = Inr (Some j) \<and>
       forms c ! j = visible (drop i (forms c)) (drop i (form_existence c)) ! nat (arg - fake - 1)"
proof (induction c arg i fake rule: getitem_loop.induct)
  case (1 c arg i fake)
  let ?fs = "forms c" and ?ex = "form_existence c"
  have i: "i < length ?fs"
  proof (rule ccontr)
    assume "\<not> i < length ?fs"
    then have "drop i ?fs = []" by simp
    with "1.prems"(3) show False by (simp add: visible_Nil)
  qed
  then have i': "i < length ?ex" using "1.prems"(1) by simp
  define fake' where "fake' = (if ?ex ! i then fake + 1 else fake)"
  have unf: "getitem_loop c arg i fake =
     (if fake' = arg then Inr (Some i) else getitem_loop c arg (i + 1) fake')"
    using i i' by (subst getitem_loop.simps) (simp add: fake'_def Let_def)
  have dr: "drop i ?fs = ?fs ! i # drop (i + 1) ?fs" "drop i ?ex = ?ex ! i # drop (i + 1) ?ex"
    using i i' by (simp_all add: Cons_nth_drop_Suc)
  show ?case
  proof (cases "fake' = arg")
    case True
    then have "?ex ! i" "arg - fake - 1 = 0" using "1.prems"(2) by (auto simp: fake'_def split: if_splits)
    then show ?thesis using unf True by (simp add: dr visible_Cons)
  next
    case False
    have lt: "fake' < arg" using False "1.prems"(2) by (auto simp: fake'_def split: if_splits)
    have vis: "nat (arg - fake' - 1) < length (visible (drop (i + 1) ?fs) (drop (i + 1) ?ex))
       \<and> visible (drop i ?fs) (drop i ?ex) ! nat (arg - fake - 1)
         = visible (drop (i + 1) ?fs) (drop (i + 1) ?ex) ! nat (arg - fake' - 1)"
    proof (cases "?ex ! i")
      case True
      then have f: "fake' = fake + 1" by (simp add: fake'_def)
      have "nat (arg - fake - 1) = Suc (nat (arg - fake' - 1))" using lt f by simp
      then show ?thesis using "1.prems"(3) True by (simp add: dr visible_Cons)
    next
      case False
      then show ?thesis using "1.prems"(3) by (simp add: dr visible_Cons fake'_def)
    qed
    from "1.IH"[OF _ _ fake'_def False "1.prems"(1) lt] vis i i'
    show ?thesis using unf False by simp
  qed
qed

lemma getitem_loop_range:
  "length (form_existence c) = length (forms c) \<Longrightarrow> i \<le> length (forms c) \<Longrightarrow> fake < arg \<Longrightarrow>
   length (visible (drop i (forms c)) (drop i (form_existence c))) \<le> nat (arg - fake - 1) \<Longrightarrow>
   getitem_loop c arg i fake = Inl IndexError"
proof (induction c arg i fake rule: getitem_loop.induct)
  case (1 c arg i fake)
  let ?fs = "forms c" and ?ex = "form_existence c"
  show ?case
  proof (cases "i < length ?fs")
    case False
    then show ?thesis using "1.prems"(1,2) by (subst getitem_loop.simps) simp
  next
    case i: True
    then have i': "i < length ?ex" using "1.prems"(1) by simp
    define fake' where "fake' = (if ?ex ! i then fake + 1 else fake)"
    have dr: "drop i ?fs = ?fs ! i # drop (i + 1) ?fs" "drop i ?ex = ?ex ! i # drop (i + 1) ?ex"
      using i i' by (simp_all add: Cons_nth_drop_Suc)
    have ne: "fake' \<noteq> arg" and lt: "fake' < arg"
      and le: "length (visible (drop (i + 1) ?fs) (drop (i + 1) ?ex)) \<le> nat (arg - fake' - 1)"
      using "1.prems"(3,4) by (auto simp: dr visible_Cons fake'_def split: if_splits)
    have unf: "getitem_loop c arg i fake = getitem_loop c arg (i + 1) fake'"
      using i i' ne by (subst getitem_loop.simps) (simp add: fake'_def Let_def)
    from "1.IH"[OF _ _ fake'_def ne "1.prems"(1) _ lt le] i i' show ?thesis using unf by simp
  qed
qed

text \<open>
  Claim C6: with a mask as long as the list of forms (as \<open>set_section\<close> leaves it), the
  length of the collection is the number of visible forms, \<open>collection[i]\<close> is the i-th
  visible form for every \<open>0 \<le> i < len\<close>, and an index from \<open>len\<close> on is out of range.
\<close>

theorem getitem_honours_mask:
  assumes "length (form_existence c) = length (forms c)"
  shows "len c = length (visible_forms c) \<and>
         (\<forall>i. 0 \<le> i \<and> i < int (len c) \<longrightarrow> getitem c i = Inr (Some (visible_forms c ! nat i))) \<and>
         (\<forall>i. int (len c) \<le> i \<longrightarrow> getitem c i = Inl IndexError)"
proof (intro conjI allI impI)
  show l: "len c = length (visible_forms c)"
    using assms by (simp add: len_def visible_forms_def length_visible)
  fix i :: int
  {
    assume "0 \<le> i \<and> i < int (len c)"
    then have "nat (i - (- 1) - 1) < length (visible (drop 0 (forms c)) (drop 0 (form_existence c)))"
      using l by (simp add: visible_forms_def nat_less_iff)
    from getitem_loop_found[OF assms _ this] \<open>0 \<le> i \<and> i < int (len c)\<close>
    show "getitem c i = Inr (Some (visible_forms c ! nat i))"
      by (auto simp: getitem_def visible_forms_def)
  next
    assume "int (len c) \<le> i"
    then have "length (visible (drop 0 (forms c)) (drop 0 (form_existence c))) \<le> nat (i - (- 1) - 1)"
      using l by (simp add: visible_forms_def)
    from getitem_loop_range[OF assms _ _ this] \<open>int (len c) \<le> i\<close>
    show "getitem c i = Inl IndexError"
      by (simp add: getitem_def)
  }
qed

theorem getitem_honours_mask_witness:
  "len (after (set_section example_collection (BySlug ''s1''))) = 2 \<and>
   getitem (after (set_section example_collection (BySlug ''s1''))) 0 = Inr (Some (example_form ''a'' ''s1'')) \<and>
   getitem (after (set_section example_collection (BySlug ''s1''))) 1 = Inr (Some (example_form ''b'' ''s1'')) \<and>
   getitem (after (set_section example_collection (BySlug ''s1''))) 2 = Inl IndexError"
proof -
  define c where "c = after (set_section example_collection (BySlug ''s1''))"
  have fe: "form_existence c = [True, True, False]"
    and fs: "forms c = [example_form ''a'' ''s1'', example_form ''b'' ''s1'', example_form ''c'' ''s2'']"
    by (simp_all add: c_def set_section_def after_def example_collection_def example_form_def Let_def)
  have "length (form_existence c) = length (forms c)" by (simp add: fe fs)
  from getitem_honours_mask[OF this]
  have "len c = length (visible_forms c)"
    and "getitem c 0 = Inr (Some (visible_forms c ! nat 0))"
    and "getitem c 1 = Inr (Some (visible_forms c ! nat 1))"
    and "getitem c 2 = Inl IndexError"
    by (simp_all add: len_def fe)
  then show ?thesis
    unfolding c_def[symmetric] by (simp add: visible_forms_def visible_def fe fs)
qed

section \<open>Collections: validation\<close>

text \<open>A validation of the framework that finds every form invalid.\<close>

definition reject_all :: "form \<Rightarrow> bool \<times> form" where
  "reject_all f = (False, f)"

text \<open>
  Claim C3: validating a collection runs the validation of every visible form, also after
  one has failed. The loop returns at the first invalid form: in the example collection,
  with its three forms visible and all of them invalid, the result is \<open>False\<close> and only the
  form at position 0 has been validated.
\<close>

theorem collection_is_valid_stops:
  "fst (collection_is_valid reject_all example_settings example_collection) = Inr False \<and>
   snd (snd (collection_is_valid reject_all example_settings example_collection)) = [0] \<and>
   len example_collection = 3"
  by (simp add: collection_is_valid_def is_valid_loop.simps getitem_loop.simps is_valid_def
      reject_all_def example_collection_def len_def)

section \<open>Stored answers: the mapping\<close>

text \<open>
  The amended reading of the specification: an answer is left out when its value list is
  not empty and all null; any other answer of a multi-valued classification maps to its
  whole list and any other answer of a single-valued classification to the first element;
  a later answer with the same key replaces an earlier one.
\<close>

definition skipped :: "answer_data \<Rightarrow> bool" where
  "skipped a = (content a \<noteq> [] \<and> list_all (\<lambda>item. item = None) (content a))"

definition multi_valued :: "settings \<Rightarrow> answer_data \<Rightarrow> bool" where
  "multi_valued S a = (field_type a \<in> set (MULTI_CHOICE_FIELDS S @ MULTI_NUMBER_FIELDS S))"

definition answer_key :: "settings \<Rightarrow> bool \<Rightarrow> answer_data \<Rightarrow> string" where
  "answer_key S for_form a =
     (if for_form then field_for_form S (field_slug a) (dataform_slug a) else field_slug a)"

definition expected_entry :: "settings \<Rightarrow> bool \<Rightarrow> answer_data \<Rightarrow> string \<times> answer_value" where
  "expected_entry S for_form a =
     (answer_key S for_form a,
      if multi_valued S a then Many (content a) else Single (hd (content a)))"

definition expected_answers :: "settings \<Rightarrow> bool \<Rightarrow> answer_data list \<Rightarrow> (string \<rightharpoonup> answer_value)" where
  "expected_answers S for_form answers =
     map_of (rev (map (expected_entry S for_form) (filter (\<lambda>a. \<not> skipped a) answers)))"

definition lookup_answer :: "error + (string \<rightharpoonup> answer_value) \<Rightarrow> string \<Rightarrow> error + answer_value option" where
  "lookup_answer r k = (case r of Inl e \<Rightarrow> Inl e | Inr data \<Rightarrow> Inr (data k))"

lemma skipped_iff:
  "skipped a = (content a \<noteq> [] \<and> True \<notin> set (map (\<lambda>item. item \<noteq> None) (content a)))"
  by (auto simp: skipped_def list_all_iff)

lemma get_answers_loop_expected:
  "list_all (\<lambda>a. skipped a \<or> multi_valued S a \<or> content a \<noteq> []) answers \<Longrightarrow>
   get_answers_loop S for_form answers data = Inr (data ++ expected_answers S for_form answers)"
proof (induction answers arbitrary: data)
  case Nil
  show ?case by (simp add: expected_answers_def)
next
  case (Cons a answers)
  then have IH: "\<And>data. get_answers_loop S for_form answers data
      = Inr (data ++ expected_answers S for_form answers)"
    by simp
  show ?case
  proof (cases "skipped a")
    case True
    then have "get_answers_loop S for_form (a # answers) data = get_answers_loop S for_form answers data"
      by (simp add: skipped_iff Let_def)
    with True IH show ?thesis by (simp add: expected_answers_def)
  next
    case False
    from False have ns: "\<not> (content a \<noteq> [] \<and> True \<notin> set (map (\<lambda>item. item \<noteq> None) (content a)))"
      using skipped_iff[of a] by blast
    have unf: "get_answers_loop S for_form (a # answers) data =
       (if field_type a \<in> set (MULTI_CHOICE_FIELDS S @ MULTI_NUMBER_FIELDS S)
        then get_answers_loop S for_form answers (data(answer_key S for_form a \<mapsto> Many (content a)))
        else (case content a of
                [] \<Rightarrow> Inl IndexError
              | item # _ \<Rightarrow> get_answers_loop S for_form answers (data(answer_key S for_form a \<mapsto> Single item))))"
      unfolding get_answers_loop.simps Let_def answer_key_def if_not_P[OF ns] by (rule refl)
    have step: "get_answers_loop S for_form (a # answers) data
       = get_answers_loop S for_form answers
           (data(fst (expected_entry S for_form a) \<mapsto> snd (expected_entry S for_form a)))"
    proof (cases "multi_valued S a")
      case True
      then show ?thesis
        unfolding unf by (simp add: expected_entry_def multi_valued_def)
    next
      case single: False
      with False Cons.prems obtain item rest where "content a = item # rest"
        by (cases "content a") auto
      with single show ?thesis
        unfolding unf by (simp add: expected_entry_def multi_valued_def)
    qed
    have "expected_answers S for_form (a # answers)
       = [fst (expected_entry S for_form a) \<mapsto> snd (expected_entry S for_form a)]
           ++ expected_answers S for_form answers"
      using False by (simp add: expected_answers_def map_of_append)
    moreover have "data ++ ([k \<mapsto> v] ++ m) = data(k \<mapsto> v) ++ m" for k v and m :: "string \<rightharpoonup> answer_value"
      by (rule ext) (simp add: map_add_def split: option.splits)
    ultimately show ?thesis unfolding step IH by simp
  qed
qed

text \<open>
  Claim C4, amended: when every answer of a single-valued classification that is not left
  out has a value, \<open>get_answers\<close> returns the mapping described above, under mangled keys
  exactly when \<open>for_form\<close> is true.
\<close>

theorem get_answers_shape:
  "list_all (\<lambda>a. skipped a \<or> multi_valued S a \<or> content a \<noteq> []) answers \<Longrightarrow>
   get_answers S answers for_form = Inr (expected_answers S for_form answers)"
  by (simp add: get_answers_def get_answers_loop_expected)

definition example_answers :: "answer_data list" where
  "example_answers =
     [\<lparr>field_slug = ''name'', dataform_slug = ''profile'', field_type = ''TextInput'', content = [Some ''Ada'']\<rparr>,
      \<lparr>field_slug = ''tags'', dataform_slug = ''profile'', field_type = ''SelectMultiple'', content = [Some ''x'', Some ''y'']\<rparr>,
      \<lparr>field_slug = ''age'', dataform_slug = ''profile'', field_type = ''IntegerInput'', content = [None]\<rparr>,
      \<lparr>field_slug = ''langs'', dataform_slug = ''profile'', field_type = ''SelectMultiple'', content = []\<rparr>]"

theorem get_answers_shape_witness:
  "lookup_answer (get_answers example_settings example_answers True) ''profile--name'' = Inr (Some (Single (Some ''Ada''))) \<and>
   lookup_answer (get_answers example_settings example_answers True) ''profile--tags'' = Inr (Some (Many [Some ''x'', Some ''y''])) \<and>
   lookup_answer (get_answers example_settings example_answers True) ''profile--age'' = Inr None \<and>
   lookup_answer (get_answers example_settings example_answers True) ''profile--langs'' = Inr (Some (Many [])) \<and>
   lookup_answer (get_answers example_settings example_answers False) ''name'' = Inr (Some (Single (Some ''Ada''))) \<and>
   lookup_answer (get_answers example_settings example_answers False) ''profile--name'' = Inr None"
proof -
  have ok: "list_all (\<lambda>a. skipped a \<or> multi_valued example_settings a \<or> content a \<noteq> []) example_answers"
    by (simp add: example_answers_def skipped_def multi_valued_def example_settings_def)
  show ?thesis
    unfolding get_answers_shape[OF ok]
    by (simp add: lookup_answer_def expected_answers_def expected_entry_def answer_key_def
        skipped_def multi_valued_def example_answers_def example_settings_def field_for_form_def)
qed

text \<open>
  Claim C4 as stated fails: an answer of a multi-valued classification with an empty value
  list is not left out, its key maps to the empty list.
\<close>

theorem get_answers_keeps_empty_list:
  "lookup_answer
     (get_answers example_settings
        [\<lparr>field_slug = ''langs'', dataform_slug = ''profile'', field_type = ''SelectMultiple'',
          content = []\<rparr>] False) ''langs''
   = Inr (Some (Many []))"
  by (simp add: get_answers_def lookup_answer_def example_settings_def)

section \<open>Saving a form: example data\<close>

text \<open>
  The text that Python 2 writes for a value that is not a string (for items in plain
  ASCII), a database with four fields, one form and three choices, and forms of the
  \<open>profile\<close> form with given keys and cleaned values.
\<close>

fun join :: "string \<Rightarrow> string list \<Rightarrow> string" where
  "join sep [] = []"
| "join sep [x] = x"
| "join sep (x # y # ys) = x @ sep @ join sep (y # ys)"

definition example_text_of :: "cleaned \<Rightarrow> string" where
  "example_text_of v =
     (case v of
        Str s \<Rightarrow> s
      | Items xs \<Rightarrow> ''['' @ join '', '' (map (\<lambda>x. ''u'' @ [CHR 0x27] @ x @ [CHR 0x27]) xs) @ '']''
      | Flag b \<Rightarrow> (if b then ''True'' else ''False'')
      | NoValue \<Rightarrow> ''None'')"

definition example_database :: database where
  "example_database =
     \<lparr>submission_rows = [],
      field_rows = [(''colour'', ''SelectMultiple''), (''scores'', ''MultiInteger''),
                    (''age'', ''IntegerInput''), (''name'', ''TextInput'')],
      dataform_rows = [''profile''],
      choice_rows = [''A'', ''B'', ''C''],
      answer_rows = []\<rparr>"

definition profile_form :: "string list \<Rightarrow> (string \<times> cleaned) list \<Rightarrow> form" where
  "profile_form keys values =
     \<lparr>slug = ''profile'', meta_slug = ''profile'', form_section = None,
      submission_slug = Some ''submission-1'', submission = None,
      field_keys = keys, cleaned_data = Some (map_of values)\<rparr>"

definition first_form :: form where
  "first_form = profile_form [''profile--colour'', ''profile--scores'', ''profile--name'']
     [(''profile--colour'', Items [''A'', ''B'']), (''profile--scores'', Items [''1'', ''2'', ''3'']),
      (''profile--name'', Str ''Ada'')]"

definition second_form :: form where
  "second_form = profile_form [''profile--colour'', ''profile--scores'', ''profile--name'']
     [(''profile--colour'', Items [''C'']), (''profile--scores'', Items [''5'']),
      (''profile--name'', Str ''Ada'')]"

text \<open>The database and the form that a successful \<open>save\<close> returns.\<close>

definition saved :: "error + form \<times> database \<Rightarrow> database" where
  "saved r = (case r of Inl e \<Rightarrow> example_database | Inr (f, db) \<Rightarrow> db)"

definition saved_form :: "error + form \<times> database \<Rightarrow> form" where
  "saved_form r = (case r of Inl e \<Rightarrow> first_form | Inr (f, db) \<Rightarrow> f)"

text \<open>Saving the first form into the example database, then the second form on top.\<close>

definition first_save :: "error + form \<times> database" where
  "first_save = save example_text_of example_settings first_form example_database"

definition second_save :: "error + form \<times> database" where
  "second_save = save example_text_of example_settings second_form (saved first_save)"

definition exception_of :: "error + 'a \<Rightarrow> error option" where
  "exception_of r = (case r of Inl e \<Rightarrow> Some e | Inr x \<Rightarrow> None)"

definition age_form :: "string list \<Rightarrow> form" where
  "age_form xs = profile_form [''profile--age''] [(''profile--age'', Items xs)]"

definition age_saved_twice :: "error + form \<times> database" where
  "age_saved_twice =
     save example_text_of example_settings (age_form [''7''])
       (saved (save example_text_of example_settings (age_form [''3'']) example_database))"

section \<open>Saving a form: what a round of the loop does\<close>

lemma then_do_Inr: "(then_do m k = Inr y) = (\<exists>x. m = Inr x \<and> k x = Inr y)"
  by (cases m) (simp_all add: then_do_def)

lemma then_do_Inr_simp [simp]: "then_do (Inr x) k = k x"
  by (simp add: then_do_def)

lemma then_do_Inl_simp [simp]: "then_do (Inl e) k = Inl e"
  by (simp add: then_do_def)

lemma matching_mem: "i \<in> set (matching P rows) \<longleftrightarrow> i < length rows \<and> P (rows ! i)"
  by (auto simp: matching_def)

lemma matching_append:
  "matching P (rows @ [r]) = matching P rows @ (if P r then [length rows] else [])"
proof -
  have "filter (\<lambda>i. P ((rows @ [r]) ! i)) [0..<length rows] = filter (\<lambda>i. P (rows ! i)) [0..<length rows]"
    by (rule filter_cong) (auto simp: nth_append)
  then show ?thesis by (simp add: matching_def)
qed

lemma matching_update:
  "P r = P (rows ! i) \<Longrightarrow> matching P (rows[i := r]) = matching P rows"
proof -
  assume "P r = P (rows ! i)"
  then have "P (rows[i := r] ! j) = P (rows ! j)" if "j < length rows" for j
    using that by (cases "j = i") simp_all
  then have "filter (\<lambda>j. P (rows[i := r] ! j)) [0..<length rows] = filter (\<lambda>j. P (rows ! j)) [0..<length rows]"
    by (intro filter_cong) auto
  then show ?thesis by (simp add: matching_def)
qed

lemma get_row_Inr: "(get_row P rows = Inr i) = (matching P rows = [i])"
  by (auto simp: get_row_def split: list.splits)

lemma matching_single: "matching P rows = [i] \<Longrightarrow> i < length rows \<and> P (rows ! i)"
  using matching_mem[of i P rows] by simp

lemma answer_goc:
  assumes "get_or_create_answer db sub fld frm = Inr (a, created, db1)"
  shows "matching (answer_for sub fld frm) (answer_rows db1) = [a]"
    and "submission_rows db1 = submission_rows db" and "field_rows db1 = field_rows db"
    and "dataform_rows db1 = dataform_rows db" and "choice_rows db1 = choice_rows db"
    and "created \<Longrightarrow> answertext_set (answer_rows db1 ! a) = []"
    and "created \<Longrightarrow> answer_rows db1 = answer_rows db @ [answer_rows db1 ! a]"
    and "created \<Longrightarrow> a = length (answer_rows db)"
    and "\<not> created \<Longrightarrow> db1 = db"
  using assms
  by (auto simp: get_or_create_answer_def get_row_def matching_append answer_for_def
      split: list.splits if_splits sum.splits)

lemma store_choices_keeps:
  "store_choices ch v a = Inr (v', row) \<Longrightarrow>
   answer_submission row = answer_submission a \<and> answer_field row = answer_field a \<and>
   answer_data_form row = answer_data_form a"
  by (cases v) (auto simp: store_choices_def)

lemma store_single_number_keeps:
  "store_single_number v a = Inr (v', row) \<Longrightarrow>
   answer_submission row = answer_submission a \<and> answer_field row = answer_field a \<and>
   answer_data_form row = answer_data_form a"
  by (cases v) (auto simp: store_single_number_def elements_def split: if_splits)

lemma store_numbers_keeps:
  "store_numbers v a = Inr (v', row) \<Longrightarrow>
   answer_submission row = answer_submission a \<and> answer_field row = answer_field a \<and>
   answer_data_form row = answer_data_form a"
  by (cases v) (auto simp: store_numbers_def elements_def)

lemma store_text_keeps:
  "store_text t created v a = Inr (v', row) \<Longrightarrow>
   answer_submission row = answer_submission a \<and> answer_field row = answer_field a \<and>
   answer_data_form row = answer_data_form a"
  by (auto simp: store_text_def Let_def split: if_splits list.splits)

lemma store_answer_keeps:
  "store_answer t S ch ty created cv a = Inr (v, row) \<Longrightarrow>
   answer_submission row = answer_submission a \<and> answer_field row = answer_field a \<and>
   answer_data_form row = answer_data_form a"
  by (auto simp: store_answer_def then_do_Inr split: if_splits
      dest: store_choices_keeps store_single_number_keeps store_numbers_keeps store_text_keeps)

lemma store_answer_for:
  "store_answer t S ch ty created cv a = Inr (v, row) \<Longrightarrow>
   answer_for sub fld frm row = answer_for sub fld frm a"
  by (drule store_answer_keeps) (simp add: answer_for_def)

lemma store_choices_again:
  "store_choices ch v a = Inr (v', row) \<Longrightarrow> store_choices ch v' row = Inr (v', row)"
  by (cases v) (auto simp: store_choices_def)

lemma store_single_number_again:
  "store_single_number v a = Inr (v', row) \<Longrightarrow> store_single_number v' row = Inr (v', row)"
  by (cases v) (auto simp: store_single_number_def elements_def split: if_splits)

lemma store_numbers_again:
  "store_numbers v a = Inr (v', row) \<Longrightarrow> store_numbers v' row = Inr (v', row)"
  by (cases v) (auto simp: store_numbers_def elements_def)

lemma store_text_again:
  "store_text t created v a = Inr (v', row) \<Longrightarrow> (created \<Longrightarrow> answertext_set a = []) \<Longrightarrow>
   store_text t False v' row = Inr (v', row)"
  by (cases created; cases "truthy v"; cases v)
     (auto simp: store_text_def Let_def differs_def stored_text_def truthy_def
       split: if_splits list.splits)

lemma store_answer_again:
  "store_answer t S ch ty created cv a = Inr (v, row) \<Longrightarrow>
   (created \<Longrightarrow> answertext_set a = []) \<Longrightarrow>
   store_answer t S ch ty False (Inr v) row = Inr (v, row)"
  by (auto simp: store_answer_def then_do_Inr split: if_splits
      dest: store_choices_again store_single_number_again store_numbers_again store_text_again)

lemma field_of_name:
  "field_of S db key = Inr fld \<Longrightarrow>
   field_for_db S key False = Inr (FieldName (fst (field_rows db ! fld)))"
proof -
  assume a: "field_of S db key = Inr fld"
  then obtain u name where u: "field_for_db S key False = Inr u"
    and n: "(case u of FieldName name \<Rightarrow> Inr name | FormAndField x y \<Rightarrow> Inl TypeError) = Inr name"
    and g: "get_row (\<lambda>row. fst row = name) (field_rows db) = Inr fld"
    unfolding field_of_def then_do_Inr by blast
  from n have "u = FieldName name" by (cases u) simp_all
  moreover from g have "fst (field_rows db ! fld) = name"
    using matching_single[of "\<lambda>row. fst row = name" "field_rows db" fld] by (simp add: get_row_Inr)
  ultimately show ?thesis using u by simp
qed

lemma field_of_differ:
  "field_of S db key = Inr fld \<Longrightarrow> field_of S db key' = Inr fld' \<Longrightarrow>
   field_for_db S key' False \<noteq> field_for_db S key False \<Longrightarrow> fld' \<noteq> fld"
  by (auto dest!: field_of_name)

lemma save_keyE:
  assumes "save_key t S key f db = Inr (f', db')"
  obtains fld sub frm a created db1 v row where
    "field_of S db key = Inr fld" "submission f = Some sub"
    "get_row (\<lambda>row. row = slug f) (dataform_rows db) = Inr frm"
    "get_or_create_answer db sub fld frm = Inr (a, created, db1)"
    "store_answer t S (choice_rows db1) (snd (field_rows db1 ! fld)) created
       (cleaned_value f key) (answer_rows db1 ! a) = Inr (v, row)"
    "f' = f\<lparr>cleaned_data := map_option (\<lambda>data. data(key \<mapsto> v)) (cleaned_data f)\<rparr>"
    "db' = db1\<lparr>answer_rows := (answer_rows db1)[a := row]\<rparr>"
  using assms
  by (auto simp: save_key_def then_do_Inr split: option.splits)

lemma store_answer_reads:
  "store_answer t S ch ty created cv a = Inr (v, row) \<Longrightarrow> \<exists>v0. cv = Inr v0"
  by (auto simp: store_answer_def then_do_Inr split: if_splits)

lemma cleaned_value_update:
  "cleaned_value f key = Inr v0 \<Longrightarrow>
   cleaned_value (f\<lparr>cleaned_data := map_option (\<lambda>data. data(key \<mapsto> v)) (cleaned_data f)\<rparr>) key
     = Inr v"
  by (auto simp: cleaned_value_def split: option.splits)

lemma cleaned_value_other:
  "key \<noteq> key' \<Longrightarrow>
   cleaned_value (f\<lparr>cleaned_data := map_option (\<lambda>data. data(key' \<mapsto> v)) (cleaned_data f)\<rparr>) key
     = cleaned_value f key"
  by (auto simp: cleaned_value_def split: option.splits)

lemma cleaned_value_same:
  "cleaned_value f key = Inr v \<Longrightarrow>
   f\<lparr>cleaned_data := map_option (\<lambda>data. data(key \<mapsto> v)) (cleaned_data f)\<rparr> = f"
  by (auto simp: cleaned_value_def fun_upd_idem split: option.splits)

text \<open>
  \<open>written key cv f db\<close>: in the database the key has its one answer, and the values of
  that answer are those that a storage branch wrote for the cleaned value \<open>cv\<close>; the form
  holds the cleaned value as that branch left it.
\<close>

definition written ::
  "(cleaned \<Rightarrow> string) \<Rightarrow> settings \<Rightarrow> string \<Rightarrow> error + cleaned \<Rightarrow> form \<Rightarrow> database \<Rightarrow> bool"
where
  "written t S key cv f db =
     (\<exists>fld sub frm a created row0 v.
        field_of S db key = Inr fld \<and> submission f = Some sub \<and>
        get_row (\<lambda>row. row = slug f) (dataform_rows db) = Inr frm \<and>
        matching (answer_for sub fld frm) (answer_rows db) = [a] \<and>
        store_answer t S (choice_rows db) (snd (field_rows db ! fld)) created cv row0
          = Inr (v, answer_rows db ! a) \<and>
        (created \<longrightarrow> answertext_set row0 = []) \<and>
        cleaned_value f key = Inr v)"

lemma save_key_written:
  assumes "save_key t S key f db = Inr (f', db')"
  shows "written t S key (cleaned_value f key) f' db'"
proof -
  from assms obtain fld sub frm a created db1 v row where
    fld: "field_of S db key = Inr fld" and sub: "submission f = Some sub"
    and frm: "get_row (\<lambda>row. row = slug f) (dataform_rows db) = Inr frm"
    and goc: "get_or_create_answer db sub fld frm = Inr (a, created, db1)"
    and st: "store_answer t S (choice_rows db1) (snd (field_rows db1 ! fld)) created
       (cleaned_value f key) (answer_rows db1 ! a) = Inr (v, row)"
    and f': "f' = f\<lparr>cleaned_data := map_option (\<lambda>data. data(key \<mapsto> v)) (cleaned_data f)\<rparr>"
    and db': "db' = db1\<lparr>answer_rows := (answer_rows db1)[a := row]\<rparr>"
    by (rule save_keyE)
  note g = answer_goc[OF goc]
  have a: "a < length (answer_rows db1)" using matching_single[OF g(1)] by simp
  from store_answer_reads[OF st] obtain v0 where v0: "cleaned_value f key = Inr v0" by blast
  have 1: "field_of S db' key = Inr fld"
    using fld g(3) by (simp add: field_of_def db')
  have 2: "submission f' = Some sub" using sub by (simp add: f')
  have 3: "get_row (\<lambda>row. row = slug f') (dataform_rows db') = Inr frm"
    using frm g(4) by (simp add: f' db')
  have 4: "matching (answer_for sub fld frm) (answer_rows db') = [a]"
    using g(1) store_answer_for[OF st] by (simp add: db' matching_update)
  have 5: "store_answer t S (choice_rows db') (snd (field_rows db' ! fld)) created
      (cleaned_value f key) (answer_rows db1 ! a) = Inr (v, answer_rows db' ! a)"
    using st a by (simp add: db')
  have 6: "created \<longrightarrow> answertext_set (answer_rows db1 ! a) = []" using g(6) by simp
  have 7: "cleaned_value f' key = Inr v"
    using cleaned_value_update[OF v0, of v] by (simp add: f')
  show ?thesis unfolding written_def using 1 2 3 4 5 6 7 by blast
qed

lemma written_save_key:
  assumes "written t S key cv f db"
  shows "save_key t S key f db = Inr (f, db)"
proof -
  from assms obtain fld sub frm a created row0 v where
    fld: "field_of S db key = Inr fld" and sub: "submission f = Some sub"
    and frm: "get_row (\<lambda>row. row = slug f) (dataform_rows db) = Inr frm"
    and m: "matching (answer_for sub fld frm) (answer_rows db) = [a]"
    and st: "store_answer t S (choice_rows db) (snd (field_rows db ! fld)) created cv row0
          = Inr (v, answer_rows db ! a)"
    and cr: "created \<longrightarrow> answertext_set row0 = []"
    and cv: "cleaned_value f key = Inr v"
    unfolding written_def by blast
  have goc: "get_or_create_answer db sub fld frm = Inr (a, False, db)"
    using m by (simp add: get_or_create_answer_def get_row_def)
  have again: "store_answer t S (choice_rows db) (snd (field_rows db ! fld)) False (Inr v)
     (answer_rows db ! a) = Inr (v, answer_rows db ! a)"
    using store_answer_again[OF st] cr by simp
  show ?thesis
    using fld sub frm goc again cv cleaned_value_same[OF cv]
    by (simp add: save_key_def)
qed

lemma written_frame:
  assumes w: "written t S key cv f db"
    and s: "save_key t S key' f db = Inr (f', db')"
    and ne: "field_for_db S key' False \<noteq> field_for_db S key False"
  shows "written t S key cv f' db'"
proof -
  from w obtain fld sub frm a created row0 v where
    fld: "field_of S db key = Inr fld" and sub: "submission f = Some sub"
    and frm: "get_row (\<lambda>row. row = slug f) (dataform_rows db) = Inr frm"
    and m: "matching (answer_for sub fld frm) (answer_rows db) = [a]"
    and st: "store_answer t S (choice_rows db) (snd (field_rows db ! fld)) created cv row0
          = Inr (v, answer_rows db ! a)"
    and cr: "created \<longrightarrow> answertext_set row0 = []"
    and cv: "cleaned_value f key = Inr v"
    unfolding written_def by blast
  from s obtain fld' sub' frm' a' created' db1 v' row' where
    fld': "field_of S db key' = Inr fld'" and sub': "submission f = Some sub'"
    and frm': "get_row (\<lambda>row. row = slug f) (dataform_rows db) = Inr frm'"
    and goc: "get_or_create_answer db sub' fld' frm' = Inr (a', created', db1)"
    and st': "store_answer t S (choice_rows db1) (snd (field_rows db1 ! fld')) created'
       (cleaned_value f key') (answer_rows db1 ! a') = Inr (v', row')"
    and f': "f' = f\<lparr>cleaned_data := map_option (\<lambda>data. data(key' \<mapsto> v')) (cleaned_data f)\<rparr>"
    and db': "db' = db1\<lparr>answer_rows := (answer_rows db1)[a' := row']\<rparr>"
    by (rule save_keyE)
  note g = answer_goc[OF goc]
  have diff: "fld' \<noteq> fld" using field_of_differ[OF fld fld' ne] .
  have keys: "key \<noteq> key'" using ne by auto
  have a: "a < length (answer_rows db)" "answer_for sub fld frm (answer_rows db ! a)"
    using matching_single[OF m] by simp_all
  have a': "a' < length (answer_rows db1)" "answer_for sub' fld' frm' (answer_rows db1 ! a')"
    using matching_single[OF g(1)] by simp_all
  have not': "\<not> answer_for sub fld frm (answer_rows db1 ! a')"
    using a'(2) diff by (auto simp: answer_for_def)
  have rows1: "matching (answer_for sub fld frm) (answer_rows db1) = [a] \<and>
      answer_rows db1 ! a = answer_rows db ! a"
  proof (cases created')
    case True
    obtain r where r: "answer_rows db1 = answer_rows db @ [r]" and al: "a' = length (answer_rows db)"
      using g(7)[OF True] g(8)[OF True] by blast
    then have "r = answer_rows db1 ! a'" by simp
    with not' have "\<not> answer_for sub fld frm r" by simp
    then have "matching (answer_for sub fld frm) (answer_rows db1) = matching (answer_for sub fld frm) (answer_rows db)"
      and "answer_rows db1 ! a = answer_rows db ! a"
      using a(1) by (simp_all add: r matching_append nth_append)
    then show ?thesis using m by simp
  next
    case False
    with g(9) m show ?thesis by simp
  qed
  have aa: "a \<noteq> a'" using rows1 a(2) not' by auto
  have 1: "field_of S db' key = Inr fld" using fld g(3) by (simp add: field_of_def db')
  have 2: "submission f' = Some sub" using sub by (simp add: f')
  have 3: "get_row (\<lambda>row. row = slug f') (dataform_rows db') = Inr frm"
    using frm g(4) by (simp add: f' db')
  have 4: "matching (answer_for sub fld frm) (answer_rows db') = [a]"
    using rows1 store_answer_for[OF st'] by (simp add: db' matching_update)
  have 5: "store_answer t S (choice_rows db') (snd (field_rows db' ! fld)) created cv row0
      = Inr (v, answer_rows db' ! a)"
    using st rows1 aa g(3) g(5) by (simp add: db')
  have 7: "cleaned_value f' key = Inr v"
    using cv cleaned_value_other[OF keys] by (simp add: f')
  show ?thesis unfolding written_def using 1 2 3 4 5 cr 7 by blast
qed

lemma save_key_keeps:
  assumes "save_key t S key f db = Inr (f', db')"
  shows "field_keys f' = field_keys f" "submission f' = submission f" "slug f' = slug f"
    "submission_slug f' = submission_slug f"
    "field_rows db' = field_rows db" "choice_rows db' = choice_rows db"
    "dataform_rows db' = dataform_rows db" "submission_rows db' = submission_rows db"
    "key' \<noteq> key \<Longrightarrow> cleaned_value f' key' = cleaned_value f key'"
proof -
  from assms obtain fld sub frm a created db1 v row where
    goc: "get_or_create_answer db sub fld frm = Inr (a, created, db1)"
    and f': "f' = f\<lparr>cleaned_data := map_option (\<lambda>data. data(key \<mapsto> v)) (cleaned_data f)\<rparr>"
    and db': "db' = db1\<lparr>answer_rows := (answer_rows db1)[a := row]\<rparr>"
    by (rule save_keyE)
  note g = answer_goc[OF goc]
  show "field_keys f' = field_keys f" "submission f' = submission f" "slug f' = slug f"
    "submission_slug f' = submission_slug f"
    by (simp_all add: f')
  show "field_rows db' = field_rows db" "choice_rows db' = choice_rows db"
    "dataform_rows db' = dataform_rows db" "submission_rows db' = submission_rows db"
    using g(2-5) by (simp_all add: db')
  show "key' \<noteq> key \<Longrightarrow> cleaned_value f' key' = cleaned_value f key'"
    unfolding f' by (rule cleaned_value_other)
qed

lemma save_loop_Cons:
  "(save_loop t S (key # keys) f db = Inr r) =
   (\<exists>f1 db1. save_key t S key f db = Inr (f1, db1) \<and> save_loop t S keys f1 db1 = Inr r)"
  by (auto simp: then_do_Inr)

lemma save_loop_keeps:
  "save_loop t S keys f db = Inr (f', db') \<Longrightarrow>
   field_keys f' = field_keys f \<and> submission f' = submission f \<and> slug f' = slug f \<and>
   submission_slug f' = submission_slug f \<and>
   field_rows db' = field_rows db \<and> choice_rows db' = choice_rows db \<and>
   dataform_rows db' = dataform_rows db \<and> submission_rows db' = submission_rows db"
proof (induction keys arbitrary: f db)
  case Nil
  then show ?case by simp
next
  case (Cons key keys)
  from Cons.prems obtain f1 db1 where s: "save_key t S key f db = Inr (f1, db1)"
    and l: "save_loop t S keys f1 db1 = Inr (f', db')"
    unfolding save_loop_Cons by blast
  from Cons.IH[OF l] save_key_keeps(1-8)[OF s] show ?case by simp
qed

lemma save_loop_frame:
  "save_loop t S keys f db = Inr (f', db') \<Longrightarrow> written t S key cv f db \<Longrightarrow>
   (\<forall>k\<in>set keys. field_for_db S k False \<noteq> field_for_db S key False) \<Longrightarrow>
   written t S key cv f' db'"
proof (induction keys arbitrary: f db)
  case Nil
  then show ?case by simp
next
  case (Cons k keys)
  from Cons.prems(1) obtain f1 db1 where s: "save_key t S k f db = Inr (f1, db1)"
    and l: "save_loop t S keys f1 db1 = Inr (f', db')"
    unfolding save_loop_Cons by blast
  have "written t S key cv f1 db1"
    using written_frame[OF Cons.prems(2) s] Cons.prems(3) by simp
  from Cons.IH[OF l this] Cons.prems(3) show ?case by simp
qed

lemma save_loop_written:
  "save_loop t S keys f db = Inr (f', db') \<Longrightarrow>
   distinct (map (\<lambda>k. field_for_db S k False) keys) \<Longrightarrow> key \<in> set keys \<Longrightarrow>
   written t S key (cleaned_value f key) f' db'"
proof (induction keys arbitrary: f db)
  case Nil
  then show ?case by simp
next
  case (Cons k keys)
  from Cons.prems(1) obtain f1 db1 where s: "save_key t S k f db = Inr (f1, db1)"
    and l: "save_loop t S keys f1 db1 = Inr (f', db')"
    unfolding save_loop_Cons by blast
  from Cons.prems(2) have d: "distinct (map (\<lambda>k. field_for_db S k False) keys)"
    and n: "\<forall>k'\<in>set keys. field_for_db S k' False \<noteq> field_for_db S k False"
    by (auto simp: image_iff)
  show ?case
  proof (cases "key = k")
    case True
    from save_loop_frame[OF l save_key_written[OF s] n] True show ?thesis by simp
  next
    case False
    with Cons.prems(3) have "key \<in> set keys" by simp
    from Cons.IH[OF l d this] save_key_keeps(9)[OF s False] show ?thesis by simp
  qed
qed

lemma save_loop_fixed:
  "(\<And>key. key \<in> set keys \<Longrightarrow> \<exists>cv. written t S key cv f db) \<Longrightarrow>
   save_loop t S keys f db = Inr (f, db)"
proof (induction keys)
  case Nil
  show ?case by simp
next
  case (Cons k keys)
  from Cons.prems[of k] obtain cv where "written t S k cv f db" by auto
  then have "save_key t S k f db = Inr (f, db)" by (rule written_save_key)
  moreover have "save_loop t S keys f db = Inr (f, db)"
    using Cons.IH Cons.prems by simp
  ultimately show ?case by simp
qed

lemma save_loop_reaches:
  "save_loop t S keys f db = Inr (f', db') \<Longrightarrow> key \<in> set keys \<Longrightarrow>
   \<exists>f1 db1 f2 db2. save_key t S key f1 db1 = Inr (f2, db2) \<and>
      cleaned_value f1 key = cleaned_value f key \<and> field_rows db1 = field_rows db"
proof (induction keys arbitrary: f db)
  case Nil
  then show ?case by simp
next
  case (Cons k keys)
  from Cons.prems(1) obtain fa dba where s: "save_key t S k f db = Inr (fa, dba)"
    and l: "save_loop t S keys fa dba = Inr (f', db')"
    unfolding save_loop_Cons by blast
  show ?case
  proof (cases "key = k")
    case True
    with s show ?thesis by blast
  next
    case False
    with Cons.prems(2) have "key \<in> set keys" by simp
    from Cons.IH[OF l this] obtain f1 db1 f2 db2 where
      "save_key t S key f1 db1 = Inr (f2, db2)" "cleaned_value f1 key = cleaned_value fa key"
      "field_rows db1 = field_rows dba" by blast
    with save_key_keeps(5,9)[OF s] False show ?thesis by metis
  qed
qed

lemma save_loop_of_save:
  assumes "save t S f db = Inr (f', db')"
  shows "\<exists>f0 db0 sub. save_loop t S (field_keys f) f0 db0 = Inr (f', db') \<and>
    submission f0 = Some sub \<and> field_keys f0 = field_keys f \<and>
    field_rows db0 = field_rows db \<and> choice_rows db0 = choice_rows db \<and>
    (\<forall>key. cleaned_value f0 key = cleaned_value f key)"
proof (cases "submission f")
  case (Some sub)
  with assms have "save_loop t S (field_keys f) f db = Inr (f', db')"
    by (simp add: save_def)
  with Some show ?thesis by blast
next
  case None
  with assms obtain s sub db0 where "submission_slug f = Some s"
    and g: "get_or_create_submission db s = Inr (sub, db0)"
    and l: "save_loop t S (field_keys f) (f\<lparr>submission := Some sub\<rparr>) db0 = Inr (f', db')"
    by (auto simp: save_def then_do_Inr split: option.splits)
  from g have "field_rows db0 = field_rows db" "choice_rows db0 = choice_rows db"
    by (auto simp: get_or_create_submission_def split: sum.splits if_splits)
  moreover have "\<forall>key. cleaned_value (f\<lparr>submission := Some sub\<rparr>) key = cleaned_value f key"
    by (simp add: cleaned_value_def)
  moreover have "submission (f\<lparr>submission := Some sub\<rparr>) = Some sub"
    "field_keys (f\<lparr>submission := Some sub\<rparr>) = field_keys f" by simp_all
  ultimately show ?thesis using l by blast
qed

lemma store_answer_repeat:
  "store_answer t S ch ty created (Inr v0) a = Inr (v, row) \<Longrightarrow>
   (created \<Longrightarrow> answertext_set a = []) \<Longrightarrow>
   store_answer t S ch ty False (Inr v0) row = Inr (v, row)"
proof -
  assume st: "store_answer t S ch ty created (Inr v0) a = Inr (v, row)"
    and cr: "created \<Longrightarrow> answertext_set a = []"
  have c: "store_choices ch v0 a = Inr (v, row) \<Longrightarrow> store_choices ch v0 row = Inr (v, row)"
    by (cases v0) (auto simp: store_choices_def)
  have s: "store_single_number v0 a = Inr (v, row) \<Longrightarrow> store_single_number v0 row = Inr (v, row)"
    by (cases v0) (auto simp: store_single_number_def elements_def split: if_splits)
  have n: "store_numbers v0 a = Inr (v, row) \<Longrightarrow> store_numbers v0 row = Inr (v, row)"
    by (cases v0) (auto simp: store_numbers_def elements_def)
  have x: "store_text t created v0 a = Inr (v, row) \<Longrightarrow> store_text t False v0 row = Inr (v, row)"
    using cr
    by (cases created; cases "truthy v0"; cases v0)
       (auto simp: store_text_def Let_def differs_def stored_text_def truthy_def
         split: if_splits list.splits)
  from st c s n x show ?thesis
    by (auto simp: store_answer_def split: if_splits)
qed

lemma save_loop_cleaned_other:
  "save_loop t S keys f db = Inr (f', db') \<Longrightarrow> key \<notin> set keys \<Longrightarrow>
   cleaned_value f' key = cleaned_value f key"
proof (induction keys arbitrary: f db)
  case Nil
  then show ?case by simp
next
  case (Cons k keys)
  from Cons.prems(1) obtain f1 db1 where s: "save_key t S k f db = Inr (f1, db1)"
    and l: "save_loop t S keys f1 db1 = Inr (f', db')"
    unfolding save_loop_Cons by blast
  from Cons.prems(2) have "key \<noteq> k" "key \<notin> set keys" by simp_all
  with Cons.IH[OF l] save_key_keeps(9)[OF s] show ?case by simp
qed

lemma save_key_on_saved:
  assumes s: "save_key t S key f db = Inr (f1, db1)"
    and w: "written t S key (cleaned_value f key) g dbn"
    and same: "cleaned_value g key = cleaned_value f1 key" "submission g = submission f" "slug g = slug f"
  shows "save_key t S key f dbn = Inr (f1, dbn)"
proof -
  from s obtain v where
    f1: "f1 = f\<lparr>cleaned_data := map_option (\<lambda>data. data(key \<mapsto> v)) (cleaned_data f)\<rparr>"
    and rd: "\<exists>v0. cleaned_value f key = Inr v0"
    by (auto elim!: save_keyE dest: store_answer_reads)
  from rd obtain v0 where v0: "cleaned_value f key = Inr v0" by blast
  have v: "cleaned_value f1 key = Inr v"
    unfolding f1 using cleaned_value_update[OF v0] .
  from w obtain fld sub frm a created row0 v' where
    fld: "field_of S dbn key = Inr fld" and sub: "submission g = Some sub"
    and frm: "get_row (\<lambda>row. row = slug g) (dataform_rows dbn) = Inr frm"
    and m: "matching (answer_for sub fld frm) (answer_rows dbn) = [a]"
    and st: "store_answer t S (choice_rows dbn) (snd (field_rows dbn ! fld)) created
        (cleaned_value f key) row0 = Inr (v', answer_rows dbn ! a)"
    and cr: "created \<longrightarrow> answertext_set row0 = []"
    and cv: "cleaned_value g key = Inr v'"
    unfolding written_def by blast
  have vv: "v' = v" using cv same(1) v by simp
  have goc: "get_or_create_answer dbn sub fld frm = Inr (a, False, dbn)"
    using m by (simp add: get_or_create_answer_def get_row_def)
  have again: "store_answer t S (choice_rows dbn) (snd (field_rows dbn ! fld)) False
     (cleaned_value f key) (answer_rows dbn ! a) = Inr (v, answer_rows dbn ! a)"
    using store_answer_repeat[OF st[unfolded v0]] cr vv v0 by simp
  show ?thesis
    using fld sub frm goc again same(2,3)
    by (simp add: save_key_def f1)
qed

lemma save_loop_on_saved:
  "save_loop t S keys f db = Inr (f', db') \<Longrightarrow>
   distinct (map (\<lambda>k. field_for_db S k False) keys) \<Longrightarrow>
   (\<forall>k\<in>set keys. written t S k (cleaned_value f k) f' dbn) \<Longrightarrow>
   save_loop t S keys f dbn = Inr (f', dbn)"
proof (induction keys arbitrary: f db)
  case Nil
  then show ?case by simp
next
  case (Cons k keys)
  from Cons.prems(1) obtain f1 db1 where s: "save_key t S k f db = Inr (f1, db1)"
    and l: "save_loop t S keys f1 db1 = Inr (f', db')"
    unfolding save_loop_Cons by blast
  from Cons.prems(2) have d: "distinct (map (\<lambda>k. field_for_db S k False) keys)"
    and n: "k \<notin> set keys"
    by (auto simp: image_iff)
  have c: "cleaned_value f' k = cleaned_value f1 k"
    using save_loop_cleaned_other[OF l n] .
  have keep: "submission f' = submission f" "slug f' = slug f"
    using save_loop_keeps[OF l] save_key_keeps(2,3)[OF s] by simp_all
  have w: "written t S k (cleaned_value f k) f' dbn" using Cons.prems(3) by simp
  have step: "save_key t S k f dbn = Inr (f1, dbn)"
    using save_key_on_saved[OF s w c keep] .
  have "\<forall>k'\<in>set keys. written t S k' (cleaned_value f1 k') f' dbn"
  proof
    fix k' assume k': "k' \<in> set keys"
    with n have "k' \<noteq> k" by auto
    from save_key_keeps(9)[OF s this] Cons.prems(3) k'
    show "written t S k' (cleaned_value f1 k') f' dbn" by simp
  qed
  from Cons.IH[OF l d this] step show ?case by simp
qed

lemma get_or_create_submission_again:
  assumes "get_or_create_submission db s = Inr (sub, db0)"
    and "submission_rows db' = submission_rows db0"
  shows "get_or_create_submission db' s = Inr (sub, db')"
proof -
  from assms(1) have "matching (\<lambda>row. row = s) (submission_rows db0) = [sub]"
    by (auto simp: get_or_create_submission_def get_row_def matching_append
        split: list.splits if_splits sum.splits)
  with assms(2) show ?thesis
    by (simp add: get_or_create_submission_def get_row_def)
qed

section \<open>Saving a form: what a save leaves behind\<close>

text \<open>
  For a key of a form: the type of its field, the \<open>Answer\<close> rows of its (submission,
  field, form) triple, and the choices and numbers stored with each of these rows.
\<close>

definition field_type_of :: "settings \<Rightarrow> database \<Rightarrow> string \<Rightarrow> error + string" where
  "field_type_of S db key = then_do (field_of S db key) (\<lambda>field. Inr (snd (field_rows db ! field)))"

definition answers_of :: "settings \<Rightarrow> form \<Rightarrow> database \<Rightarrow> string \<Rightarrow> error + nat list" where
  "answers_of S f db key =
     then_do (field_of S db key) (\<lambda>field.
     then_do (case submission f of None \<Rightarrow> Inl AttributeError | Some sub \<Rightarrow> Inr sub) (\<lambda>sub.
     then_do (get_row (\<lambda>row. row = slug f) (dataform_rows db)) (\<lambda>data_form.
       Inr (matching (answer_for sub field data_form) (answer_rows db)))))"

definition stored_choices :: "settings \<Rightarrow> form \<Rightarrow> database \<Rightarrow> string \<Rightarrow> error + nat list list" where
  "stored_choices S f db key =
     then_do (answers_of S f db key) (\<lambda>as. Inr (map (\<lambda>a. answerchoice_set (answer_rows db ! a)) as))"

definition stored_numbers :: "settings \<Rightarrow> form \<Rightarrow> database \<Rightarrow> string \<Rightarrow> error + string list list" where
  "stored_numbers S f db key =
     then_do (answers_of S f db key) (\<lambda>as. Inr (map (\<lambda>a. answernumber_set (answer_rows db ! a)) as))"

definition selection :: "cleaned \<Rightarrow> string list" where
  "selection v = (case v of Str s \<Rightarrow> [s] | Items xs \<Rightarrow> xs | _ \<Rightarrow> [])"

lemma store_choices_result:
  "store_choices ch v a = Inr (v', row) \<Longrightarrow>
   answerchoice_set row = matching (\<lambda>value. value \<in> set (selection v)) ch"
  by (cases v) (auto simp: store_choices_def selection_def)

lemma store_numbers_result:
  "store_numbers v a = Inr (v', row) \<Longrightarrow> elements v = Inr (answernumber_set row)"
  by (auto simp: store_numbers_def then_do_Inr)

lemma store_single_number_result:
  "store_single_number v a = Inr (v', row) \<Longrightarrow>
   \<exists>x. elements v = Inr [x] \<and> answernumber_set row = [x]"
proof -
  assume "store_single_number v a = Inr (v', row)"
  then obtain xs where xs: "elements v = Inr xs" "length xs = 1" "answernumber_set row = [xs ! 0]"
    by (auto simp: store_single_number_def then_do_Inr split: if_splits)
  then have "xs = [xs ! 0]" by (cases xs) simp_all
  with xs show ?thesis by metis
qed

lemma written_after_save:
  assumes s: "save t S f db = Inr (f', db')"
    and d: "distinct (map (\<lambda>k. field_for_db S k False) (field_keys f))"
    and k: "key \<in> set (field_keys f)"
  shows "written t S key (cleaned_value f key) f' db'"
    and "field_rows db' = field_rows db" and "choice_rows db' = choice_rows db"
    and "field_keys f' = field_keys f" and "submission f' \<noteq> None"
proof -
  from save_loop_of_save[OF s] obtain f0 db0 sub where
    l: "save_loop t S (field_keys f) f0 db0 = Inr (f', db')"
    and 0: "submission f0 = Some sub" "field_keys f0 = field_keys f"
      "field_rows db0 = field_rows db" "choice_rows db0 = choice_rows db"
      "\<forall>key. cleaned_value f0 key = cleaned_value f key"
    by blast
  from save_loop_written[OF l d k] 0(5) show "written t S key (cleaned_value f key) f' db'" by simp
  from save_loop_keeps[OF l] 0 show "field_rows db' = field_rows db" "choice_rows db' = choice_rows db"
    "field_keys f' = field_keys f" "submission f' \<noteq> None" by simp_all
qed

lemma written_answers:
  assumes "written t S key cv f db"
  obtains fld a created row0 v where
    "field_of S db key = Inr fld" "answers_of S f db key = Inr [a]"
    "store_answer t S (choice_rows db) (snd (field_rows db ! fld)) created cv row0
       = Inr (v, answer_rows db ! a)"
  using assms unfolding written_def answers_of_def by fastforce

text \<open>
  Claim C1: a successful \<open>save\<close> of a form whose keys name different fields leaves, for
  every key of a choice-type field, one answer whose stored choices are exactly the
  choices of the table whose value is in the cleaned value of the key, and for every key
  of a multi-number field one answer whose stored numbers are exactly the elements of the
  cleaned value: whatever was stored before the save is gone.
\<close>

theorem save_replaces_values:
  assumes s: "save t S f db = Inr (f', db')"
    and d: "distinct (map (\<lambda>k. field_for_db S k False) (field_keys f))"
    and k: "key \<in> set (field_keys f)"
    and ty: "field_type_of S db key = Inr ftype"
  shows "(ftype \<in> set (CHOICE_FIELDS S) \<longrightarrow>
            (\<exists>v. cleaned_value f key = Inr v \<and>
                 stored_choices S f' db' key
                   = Inr [matching (\<lambda>value. value \<in> set (selection v)) (choice_rows db)])) \<and>
         (ftype \<notin> set (CHOICE_FIELDS S) \<and> ftype \<notin> set (SINGLE_NUMBER_FIELDS S) \<and>
          ftype \<in> set (MULTI_NUMBER_FIELDS S) \<longrightarrow>
            (\<exists>xs. then_do (cleaned_value f key) elements = Inr xs \<and>
                  stored_numbers S f' db' key = Inr [xs]))"
proof -
  note w = written_after_save[OF s d k]
  from w(1) obtain fld a created row0 v where
    fld: "field_of S db' key = Inr fld" and an: "answers_of S f' db' key = Inr [a]"
    and st: "store_answer t S (choice_rows db') (snd (field_rows db' ! fld)) created
       (cleaned_value f key) row0 = Inr (v, answer_rows db' ! a)"
    by (rule written_answers)
  have "field_of S db key = Inr fld" using fld w(2) by (simp add: field_of_def)
  with ty have ft: "snd (field_rows db' ! fld) = ftype" using w(2) by (simp add: field_type_of_def)
  from store_answer_reads[OF st] obtain v0 where v0: "cleaned_value f key = Inr v0" by blast
  show ?thesis
  proof (intro conjI impI)
    assume "ftype \<in> set (CHOICE_FIELDS S)"
    with st ft v0 have "store_choices (choice_rows db') v0 row0 = Inr (v, answer_rows db' ! a)"
      by (simp add: store_answer_def)
    from store_choices_result[OF this] an v0 w(3)
    show "\<exists>v. cleaned_value f key = Inr v \<and>
        stored_choices S f' db' key = Inr [matching (\<lambda>value. value \<in> set (selection v)) (choice_rows db)]"
      by (simp add: stored_choices_def)
  next
    assume "ftype \<notin> set (CHOICE_FIELDS S) \<and> ftype \<notin> set (SINGLE_NUMBER_FIELDS S) \<and>
          ftype \<in> set (MULTI_NUMBER_FIELDS S)"
    with st ft v0 have "store_numbers v0 row0 = Inr (v, answer_rows db' ! a)"
      by (simp add: store_answer_def)
    from store_numbers_result[OF this] an v0
    show "\<exists>xs. then_do (cleaned_value f key) elements = Inr xs \<and> stored_numbers S f' db' key = Inr [xs]"
      by (simp add: stored_numbers_def)
  qed
qed

lemma first_saved: "saved first_save =
   \<lparr>submission_rows = [''submission-1''],
      field_rows = [(''colour'', ''SelectMultiple''), (''scores'', ''MultiInteger''),
                    (''age'', ''IntegerInput''), (''name'', ''TextInput'')],
      dataform_rows = [''profile''],
      choice_rows = [''A'', ''B'', ''C''],
      answer_rows =
        [\<lparr>answer_submission = 0, answer_field = 0, answer_data_form = 0,
          answerchoice_set = [0, 1], answernumber_set = [], answertext_set = []\<rparr>,
         \<lparr>answer_submission = 0, answer_field = 1, answer_data_form = 0,
          answerchoice_set = [], answernumber_set = [''1'', ''2'', ''3''], answertext_set = []\<rparr>,
         \<lparr>answer_submission = 0, answer_field = 3, answer_data_form = 0,
          answerchoice_set = [], answernumber_set = [], answertext_set = [''Ada'']\<rparr>]\<rparr>"
  by code_simp

lemma second_ok: "\<not> isl second_save"
  by code_simp

theorem save_replaces_values_witness:
  "stored_choices example_settings (saved_form second_save) (saved second_save) ''profile--colour''
     = Inr [[2]] \<and>
   stored_numbers example_settings (saved_form second_save) (saved second_save) ''profile--scores''
     = Inr [[''5'']] \<and>
   stored_choices example_settings (saved_form first_save) (saved first_save) ''profile--colour''
     = Inr [[0, 1]]"
proof -
  have "second_save = Inr (projr second_save)"
    using second_ok by (rule sum.collapse(2)[symmetric])
  then obtain f' db' where s: "second_save = Inr (f', db')"
    by (cases "projr second_save") simp
  then have s': "save example_text_of example_settings second_form (saved first_save) = Inr (f', db')"
    by (simp add: second_save_def)
  have d: "distinct (map (\<lambda>k. field_for_db example_settings k False) (field_keys second_form))"
    by code_simp
  have k1: "''profile--colour'' \<in> set (field_keys second_form)"
    and k2: "''profile--scores'' \<in> set (field_keys second_form)"
    by (simp_all add: second_form_def profile_form_def)
  have t1: "field_type_of example_settings (saved first_save) ''profile--colour'' = Inr ''SelectMultiple''"
    and t2: "field_type_of example_settings (saved first_save) ''profile--scores'' = Inr ''MultiInteger''"
    by code_simp+
  have c1: "cleaned_value second_form ''profile--colour'' = Inr (Items [''C''])"
    and c2: "cleaned_value second_form ''profile--scores'' = Inr (Items [''5''])"
    by (simp_all add: cleaned_value_def second_form_def profile_form_def)
  have ch: "choice_rows (saved first_save) = [''A'', ''B'', ''C'']" by (simp add: first_saved)
  have m: "matching (\<lambda>value. value \<in> set [''C'']) [''A'', ''B'', ''C''] = [2]" by code_simp
  have "stored_choices example_settings f' db' ''profile--colour'' = Inr [[2]]"
    using save_replaces_values[OF s' d k1 t1] c1 ch m
    by (simp add: example_settings_def selection_def)
  moreover have "stored_numbers example_settings f' db' ''profile--scores'' = Inr [[''5'']]"
    using save_replaces_values[OF s' d k2 t2] c2
    by (simp add: example_settings_def elements_def)
  moreover have "stored_choices example_settings (saved_form first_save) (saved first_save) ''profile--colour''
     = Inr [[0, 1]]" by code_simp
  ultimately show ?thesis by (simp add: s saved_def saved_form_def)
qed

text \<open>
  Claim C5: after a successful \<open>save\<close> of a form whose keys name different fields,
  saving again changes nothing, be it the same form object or the form as it was
  before the first save (the same cleaned data), and every key of the form has exactly
  one answer row.
\<close>

theorem save_twice:
  assumes s: "save t S f db = Inr (f', db')"
    and d: "distinct (map (\<lambda>k. field_for_db S k False) (field_keys f))"
  shows "save t S f' db' = Inr (f', db') \<and>
         save t S f db' = Inr (f', db') \<and>
         (\<forall>key\<in>set (field_keys f). \<exists>a. answers_of S f' db' key = Inr [a])"
proof (intro conjI)
  have w: "key \<in> set (field_keys f) \<Longrightarrow> written t S key (cleaned_value f key) f' db'" for key
    using written_after_save(1)[OF s d] .
  from save_loop_of_save[OF s] obtain f0 db0 sub where
    l: "save_loop t S (field_keys f) f0 db0 = Inr (f', db')"
    and 0: "submission f0 = Some sub" "field_keys f0 = field_keys f"
      "\<forall>key. cleaned_value f0 key = cleaned_value f key"
    by blast
  from save_loop_keeps[OF l] 0 have f': "submission f' = Some sub" "field_keys f' = field_keys f"
    by simp_all
  have "save_loop t S (field_keys f) f' db' = Inr (f', db')"
    by (rule save_loop_fixed) (use w in blast)
  then show "save t S f' db' = Inr (f', db')" by (simp add: save_def f')
  show "\<forall>key\<in>set (field_keys f). \<exists>a. answers_of S f' db' key = Inr [a]"
  proof
    fix key assume "key \<in> set (field_keys f)"
    from w[OF this] show "\<exists>a. answers_of S f' db' key = Inr [a]"
      by (rule written_answers) blast
  qed
  show "save t S f db' = Inr (f', db')"
  proof (cases "submission f")
    case (Some sub0)
    with s have l0: "save_loop t S (field_keys f) f db = Inr (f', db')" by (simp add: save_def)
    have "save_loop t S (field_keys f) f db' = Inr (f', db')"
      by (rule save_loop_on_saved[OF l0 d]) (use w in blast)
    with Some show ?thesis by (simp add: save_def)
  next
    case None
    with s obtain slg sub1 db1 where sl: "submission_slug f = Some slg"
      and g: "get_or_create_submission db slg = Inr (sub1, db1)"
      and l1: "save_loop t S (field_keys f) (f\<lparr>submission := Some sub1\<rparr>) db1 = Inr (f', db')"
      by (auto simp: save_def then_do_Inr split: option.splits)
    have "submission_rows db' = submission_rows db1" using save_loop_keeps[OF l1] by simp
    from get_or_create_submission_again[OF g this]
    have g': "get_or_create_submission db' slg = Inr (sub1, db')" .
    have cvs: "cleaned_value (f\<lparr>submission := Some sub1\<rparr>) k = cleaned_value f k" for k
      by (simp add: cleaned_value_def)
    have "save_loop t S (field_keys f) (f\<lparr>submission := Some sub1\<rparr>) db' = Inr (f', db')"
      by (rule save_loop_on_saved[OF l1 d]) (use w cvs in simp)
    with None sl g' show ?thesis by (simp add: save_def)
  qed
qed

lemma first_ok: "\<not> isl first_save"
  by code_simp

theorem save_twice_witness:
  "save example_text_of example_settings (saved_form first_save) (saved first_save) = first_save \<and>
   save example_text_of example_settings first_form (saved first_save) = first_save \<and>
   answers_of example_settings (saved_form first_save) (saved first_save) ''profile--colour'' = Inr [0] \<and>
   answers_of example_settings (saved_form first_save) (saved first_save) ''profile--scores'' = Inr [1] \<and>
   answers_of example_settings (saved_form first_save) (saved first_save) ''profile--name'' = Inr [2]"
proof -
  have "first_save = Inr (projr first_save)"
    using first_ok by (rule sum.collapse(2)[symmetric])
  then obtain f' db' where s: "first_save = Inr (f', db')"
    by (cases "projr first_save") simp
  then have s': "save example_text_of example_settings first_form example_database = Inr (f', db')"
    by (simp add: first_save_def)
  have d: "distinct (map (\<lambda>k. field_for_db example_settings k False) (field_keys first_form))"
    by code_simp
  have a: "answers_of example_settings (saved_form first_save) (saved first_save) ''profile--colour'' = Inr [0]"
    "answers_of example_settings (saved_form first_save) (saved first_save) ''profile--scores'' = Inr [1]"
    "answers_of example_settings (saved_form first_save) (saved first_save) ''profile--name'' = Inr [2]"
    by code_simp+
  from save_twice[OF s' d] a show ?thesis
    by (simp add: s saved_def saved_form_def)
qed

text \<open>
  Claim C8: for a field classified as single-number (and not as choice-type, which is
  tested first), the storage branch raises \<open>AssertionError\<close> unless the cleaned list has
  exactly one element, and then replaces the stored numbers by that element; \<open>save\<close>
  raises whenever a key of the form has such a field and a cleaned list of another
  length, and a successful \<open>save\<close> leaves the one element as the only stored number.
\<close>

theorem save_single_number:
  assumes single: "ftype \<in> set (SINGLE_NUMBER_FIELDS S)" "ftype \<notin> set (CHOICE_FIELDS S)"
    and k: "key \<in> set (field_keys f)"
    and ty: "field_type_of S db key = Inr ftype"
    and cv: "cleaned_value f key = Inr (Items xs)"
  shows "store_answer t S ch ftype created (cleaned_value f key) a
           = (if length xs = 1 then Inr (Items xs, a\<lparr>answernumber_set := [hd xs]\<rparr>)
              else Inl AssertionError) \<and>
         (length xs \<noteq> 1 \<longrightarrow> (\<exists>e. save t S f db = Inl e)) \<and>
         (\<forall>f' db'. save t S f db = Inr (f', db') \<and>
              distinct (map (\<lambda>k. field_for_db S k False) (field_keys f)) \<longrightarrow>
              stored_numbers S f' db' key = Inr [[hd xs]])"
proof (intro conjI impI allI)
  show "store_answer t S ch ftype created (cleaned_value f key) a
           = (if length xs = 1 then Inr (Items xs, a\<lparr>answernumber_set := [hd xs]\<rparr>)
              else Inl AssertionError)"
    using single cv
    by (cases xs) (simp_all add: store_answer_def store_single_number_def elements_def)
next
  assume len: "length xs \<noteq> 1"
  show "\<exists>e. save t S f db = Inl e"
  proof (cases "save t S f db")
    case (Inl e)
    then show ?thesis by blast
  next
    case (Inr r)
    obtain f' db' where r: "r = (f', db')" by (cases r)
    from Inr r have "save t S f db = Inr (f', db')" by simp
    from save_loop_of_save[OF this] obtain f0 db0 where
      l: "save_loop t S (field_keys f) f0 db0 = Inr (f', db')"
      and 0: "field_rows db0 = field_rows db" "\<forall>key. cleaned_value f0 key = cleaned_value f key"
      by blast
    from save_loop_reaches[OF l k] obtain f1 db1 f2 db2 where
      sk: "save_key t S key f1 db1 = Inr (f2, db2)"
      and c1: "cleaned_value f1 key = cleaned_value f0 key"
      and r1: "field_rows db1 = field_rows db0" by blast
    from sk obtain fld sub' frm a' created' dbx v row where
      fld: "field_of S db1 key = Inr fld"
      and goc: "get_or_create_answer db1 sub' fld frm = Inr (a', created', dbx)"
      and st: "store_answer t S (choice_rows dbx) (snd (field_rows dbx ! fld)) created'
         (cleaned_value f1 key) (answer_rows dbx ! a') = Inr (v, row)"
      by (rule save_keyE)
    have rx: "field_rows dbx = field_rows db" using answer_goc(3)[OF goc] r1 0(1) by simp
    have "field_of S db key = Inr fld" using fld r1 0(1) by (simp add: field_of_def)
    with ty have "snd (field_rows dbx ! fld) = ftype" by (simp add: field_type_of_def rx)
    with st single cv c1 0(2) len have False
      by (simp add: store_answer_def store_single_number_def elements_def)
    then show ?thesis ..
  qed
next
  fix f' db'
  assume "save t S f db = Inr (f', db') \<and>
     distinct (map (\<lambda>k. field_for_db S k False) (field_keys f))"
  then have s: "save t S f db = Inr (f', db')"
    and d: "distinct (map (\<lambda>k. field_for_db S k False) (field_keys f))" by simp_all
  note w = written_after_save[OF s d k]
  from w(1) obtain fld a' created' row0 v where
    fld: "field_of S db' key = Inr fld" and an: "answers_of S f' db' key = Inr [a']"
    and st: "store_answer t S (choice_rows db') (snd (field_rows db' ! fld)) created'
       (cleaned_value f key) row0 = Inr (v, answer_rows db' ! a')"
    by (rule written_answers)
  have "field_of S db key = Inr fld" using fld w(2) by (simp add: field_of_def)
  with ty have "snd (field_rows db' ! fld) = ftype" using w(2) by (simp add: field_type_of_def)
  with st single cv have "store_single_number (Items xs) row0 = Inr (v, answer_rows db' ! a')"
    by (simp add: store_answer_def)
  from store_single_number_result[OF this] have "answernumber_set (answer_rows db' ! a') = [hd xs]"
    by (auto simp: elements_def)
  with an show "stored_numbers S f' db' key = Inr [[hd xs]]"
    by (simp add: stored_numbers_def)
qed

lemma age_ok: "\<not> isl age_saved_twice"
  by code_simp

theorem save_single_number_witness:
  "exception_of (save example_text_of example_settings (age_form [''1'', ''2'']) example_database)
     = Some AssertionError \<and>
   exception_of (save example_text_of example_settings (age_form []) example_database)
     = Some AssertionError \<and>
   stored_numbers example_settings (saved_form age_saved_twice) (saved age_saved_twice) ''profile--age''
     = Inr [[''7'']]"
proof -
  have ty: "field_type_of example_settings db ''profile--age'' = Inr ''IntegerInput''"
    if "field_rows db = field_rows example_database" for db
    using that
    by (simp add: field_type_of_def field_of_def field_for_db_def split_def example_settings_def
        example_database_def get_row_def matching_def)
  have single: "''IntegerInput'' \<in> set (SINGLE_NUMBER_FIELDS example_settings)"
    "''IntegerInput'' \<notin> set (CHOICE_FIELDS example_settings)"
    by (simp_all add: example_settings_def)
  have k: "''profile--age'' \<in> set (field_keys (age_form xs))" for xs
    by (simp add: age_form_def profile_form_def)
  have cv: "cleaned_value (age_form xs) ''profile--age'' = Inr (Items xs)" for xs
    by (simp add: age_form_def profile_form_def cleaned_value_def)
  have "\<exists>e. save example_text_of example_settings (age_form [''1'', ''2'']) example_database = Inl e"
    using save_single_number[where t = example_text_of and xs = "[''1'', ''2'']",
        OF single k ty[OF refl] cv]
    by simp
  have 1: "exception_of (save example_text_of example_settings (age_form [''1'', ''2'']) example_database)
     = Some AssertionError"
    and 2: "exception_of (save example_text_of example_settings (age_form []) example_database)
     = Some AssertionError"
    by code_simp+
  have "age_saved_twice = Inr (projr age_saved_twice)"
    using age_ok by (rule sum.collapse(2)[symmetric])
  then obtain f' db' where s: "age_saved_twice = Inr (f', db')"
    by (cases "projr age_saved_twice") simp
  define db1 where "db1 = saved (save example_text_of example_settings (age_form [''3'']) example_database)"
  have fr: "field_rows db1 = field_rows example_database" unfolding db1_def by code_simp
  have s': "save example_text_of example_settings (age_form [''7'']) db1 = Inr (f', db')"
    using s by (simp add: age_saved_twice_def db1_def)
  have d: "distinct (map (\<lambda>k. field_for_db example_settings k False) (field_keys (age_form [''7''])))"
    by (simp add: age_form_def profile_form_def)
  from save_single_number[where t = example_text_of and xs = "[''7'']", OF single k ty[OF fr] cv] s' d
  have "stored_numbers example_settings f' db' ''profile--age'' = Inr [[''7'']]"
    by simp
  with 1 2 show ?thesis by (simp add: s saved_def saved_form_def)
qed

end
